theory Spec2Isabelle
  imports Complex_Main "HOL-Library.Word" "HOL-Library.Signed_Division"
begin

section \<open>Dense grids\<close>

text \<open>
  A single-channel \<open>cv::Mat\<close> is modelled by the list of its rows.  Coordinates are C++
  \<open>int\<close>s, modelled as \<open>int\<close>; the sizes that occur are far below the 32-bit limit.
\<close>

type_synonym 'a mat = "'a list list"

definition rows :: "'a mat \<Rightarrow> int" where
  "rows m = int (length m)"

definition cols :: "'a mat \<Rightarrow> int" where
  "cols m = (case m of [] \<Rightarrow> 0 | r # _ \<Rightarrow> int (length r))"

definition mat_ok :: "'a mat \<Rightarrow> bool" where
  "mat_ok m \<longleftrightarrow> (\<forall>r \<in> set m. int (length r) = cols m)"

definition mat_at :: "'a mat \<Rightarrow> int \<Rightarrow> int \<Rightarrow> 'a" where
  "mat_at m row col = m ! nat row ! nat col"

text \<open>\<open>has_size m r c\<close>: \<open>m\<close> is a rectangular grid of \<open>r\<close> rows and \<open>c\<close> columns.\<close>

definition has_size :: "'a mat \<Rightarrow> int \<Rightarrow> int \<Rightarrow> bool" where
  "has_size m r c \<longleftrightarrow> rows m = r \<and> cols m = c \<and> mat_ok m"

text \<open>\<open>Mat::empty()\<close>: the matrix has no element.\<close>

definition empty_mat :: "'a mat \<Rightarrow> bool" where
  "empty_mat m \<longleftrightarrow> rows m = 0 \<or> cols m = 0"

text \<open>The grid of \<open>r\<close> rows and \<open>c\<close> columns whose element at \<open>(row, col)\<close> is \<open>f row col\<close>.\<close>

definition tabulate :: "int \<Rightarrow> int \<Rightarrow> (int \<Rightarrow> int \<Rightarrow> 'a) \<Rightarrow> 'a mat" where
  "tabulate r c f = map (\<lambda>row. map (\<lambda>col. f row col) [0..c - 1]) [0..r - 1]"

text \<open>
  \<open>img.at<T>(row, col) = v\<close>.  The release build of the library does not check the index;
  here a write outside the grid leaves the grid as it is.  The horizontal pass of \<open>edgeTaper\<close>
  never writes outside (lemma \<open>horizontal_fills_in_range\<close>).
\<close>

definition set_at :: "'a mat \<Rightarrow> int \<Rightarrow> int \<Rightarrow> 'a \<Rightarrow> 'a mat" where
  "set_at img row col v =
     (if 0 \<le> row \<and> row < rows img \<and> 0 \<le> col \<and> col < cols img
      then img[nat row := (img ! nat row)[nat col := v]]
      else img)"

subsection \<open>Library operations used by the convolution\<close>

datatype error = CvError | InvalidShape | AssertionFailed

text \<open>
  \<open>cv::copyMakeBorder\<close> with \<open>BORDER_CONSTANT\<close> and value 0: the source surrounded by
  \<open>ptop\<close>, \<open>pbottom\<close> rows and \<open>pleft\<close>, \<open>pright\<close> columns of zeros.  The library asserts that
  the four widths are not negative.
\<close>

definition copyMakeBorder :: "real mat \<Rightarrow> int \<Rightarrow> int \<Rightarrow> int \<Rightarrow> int \<Rightarrow> error + real mat" where
  "copyMakeBorder src ptop pbottom pleft pright =
     (if ptop < 0 \<or> pbottom < 0 \<or> pleft < 0 \<or> pright < 0 then Inl CvError
      else let zrow = replicate (nat (cols src + pleft + pright)) 0
           in Inr (replicate (nat ptop) zrow
                   @ map (\<lambda>r. replicate (nat pleft) 0 @ r @ replicate (nat pright) 0) src
                   @ replicate (nat pbottom) zrow))"

text \<open>\<open>cv::flip\<close> with flip code \<open>-1\<close>: both axes are reversed.\<close>

definition flip_both :: "'a mat \<Rightarrow> 'a mat" where
  "flip_both m = map rev (rev m)"

text \<open>
  \<open>cv::borderInterpolate\<close> for \<open>BORDER_REFLECT_101\<close>, the default border of
  \<open>cv::filter2D\<close>: the index is reflected at the first and the last sample until it falls
  into \<open>[0, len)\<close>; a line of one sample maps every index to 0.  (The library is not called
  on a line without samples.)
\<close>

function borderInterpolate :: "int \<Rightarrow> int \<Rightarrow> int" where
  "borderInterpolate p len =
     (if 0 \<le> p \<and> p < len then p
      else if len \<le> 1 then 0
      else if p < 0 then borderInterpolate (- p - 1 + 1) len
      else borderInterpolate (len - 1 - (p - len) - 1) len)"
  by pat_completeness auto
termination
  by (relation "measure (\<lambda>(p, len). if 0 \<le> p then nat (2 * p) else nat (2 * (- p) + 1))") auto

declare borderInterpolate.simps [simp del]

text \<open>
  \<open>cv::filter2D\<close> with \<open>ddepth = -1\<close> and the default border: the correlation
  \<open>dst(y, x) = \<Sum> kern(i, j) * src(y + i - anchor.y, x + j - anchor.x)\<close>, where samples
  outside the source are taken by \<open>borderInterpolate\<close>.  The result has the size of the source.
\<close>

definition filter2D :: "real mat \<Rightarrow> real mat \<Rightarrow> int \<times> int \<Rightarrow> real mat" where
  "filter2D src kern anchor =
     map (\<lambda>y. map (\<lambda>x.
            (\<Sum>i\<leftarrow>[0..rows kern - 1]. \<Sum>j\<leftarrow>[0..cols kern - 1].
               mat_at kern i j *
               mat_at src (borderInterpolate (y + i - snd anchor) (rows src))
                          (borderInterpolate (x + j - fst anchor) (cols src))))
          [0..cols src - 1])
       [0..rows src - 1]"

text \<open>
  \<open>Mat::operator()(Rect(x, y, width, height))\<close>: the library asserts that the rectangle
  lies inside the matrix.  \<open>sub_mat\<close> is the content of the rectangle.
\<close>

definition sub_mat :: "'a mat \<Rightarrow> int \<Rightarrow> int \<Rightarrow> int \<Rightarrow> int \<Rightarrow> 'a mat" where
  "sub_mat m x y width height =
     map (\<lambda>r. take (nat width) (drop (nat x) r)) (take (nat height) (drop (nat y) m))"

definition roi :: "'a mat \<Rightarrow> int \<Rightarrow> int \<Rightarrow> int \<Rightarrow> int \<Rightarrow> error + 'a mat" where
  "roi m x y width height =
     (if 0 \<le> x \<and> 0 \<le> width \<and> x + width \<le> cols m \<and> 0 \<le> y \<and> 0 \<le> height \<and> y + height \<le> rows m
      then Inr (sub_mat m x y width height)
      else Inl CvError)"

section \<open>Shape-aware convolution: \<open>conv2\<close>\<close>

datatype ConvShape = FULL | SAME | VALID | OtherShape

text \<open>
  \<open>OtherShape\<close> stands for any value of the enumeration type that is none of the three
  enumerators (the \<open>default\<close> branch of the \<open>switch\<close>).  The integer divisions are C++
  divisions, which truncate.  \<open>crop\<close> is the \<open>switch\<close> statement of \<open>conv2\<close>, applied to
  the filtered grid \<open>tmp\<close>; the final \<open>copyTo\<close> copies the cropped view to the result.
\<close>

definition crop :: "real mat \<Rightarrow> real mat \<Rightarrow> real mat \<Rightarrow> ConvShape \<Rightarrow> error + real mat" where
  "crop src kern tmp shape =
     (let padSizeX = cols kern - 1;
          padSizeY = rows kern - 1
      in case shape of
           FULL \<Rightarrow> roi tmp 0 0 (cols tmp - padSizeX) (rows tmp - padSizeY)
         | SAME \<Rightarrow> roi tmp ((cols tmp - padSizeX - cols src + 1) sdiv 2)
                           ((rows tmp - padSizeY - rows src + 1) sdiv 2)
                           (cols src) (rows src)
         | VALID \<Rightarrow>
             (let width = cols src - cols kern + 1;
                  height = rows src - rows kern + 1
              in roi tmp ((cols tmp - padSizeX - width) sdiv 2)
                         ((rows tmp - padSizeY - height) sdiv 2)
                         width height)
         | OtherShape \<Rightarrow> Inl InvalidShape)"

definition conv2 :: "real mat \<Rightarrow> real mat \<Rightarrow> ConvShape \<Rightarrow> error + real mat" where
  "conv2 src kern shape =
     (let padSizeX = cols kern - 1;
          padSizeY = rows kern - 1
      in case copyMakeBorder src padSizeY padSizeY padSizeX padSizeX of
           Inl e \<Rightarrow> Inl e
         | Inr zeroPadded \<Rightarrow> crop src kern (filter2D zeroPadded (flip_both kern) (0, 0)) shape)"

section \<open>Masked cross correlation: \<open>crossCorrelation\<close>\<close>

subsection \<open>Float arithmetic\<close>

text \<open>
  The function computes on C++ \<open>float\<close>s, IEEE 754 binary32 numbers.  A float is a finite
  real number, an infinity or NaN.  The two zeros are identified: the sign of a zero shows
  only in a division by it, and the one divisor of the function is a product of two square
  roots of sums of squares, which is never \<open>-0\<close>.
\<close>

datatype fval = Finite real | PosInf | NegInf | NaN

text \<open>
  The quotient of two finite numbers before rounding, as IEEE 754 defines it when the
  divisor is (positive) zero: \<open>0 / 0\<close> is NaN and \<open>x / 0\<close> is an infinity with the sign of \<open>x\<close>.
\<close>

definition fdiv :: "real \<Rightarrow> real \<Rightarrow> fval" where
  "fdiv a b = (if b \<noteq> 0 then Finite (a / b)
               else if a = 0 then NaN
               else if 0 < a then PosInf else NegInf)"

text \<open>
  An operation on floats computes the exact result of its finite operands and rounds it.
  The rounding \<open>rnd\<close>, which takes a real number to the float that stands for it (an infinity
  when it overflows), is an argument of the operations: with \<open>float32\<close> below they are the
  operations of the machine, with \<open>Finite\<close> they are exact.  On infinities and NaN they follow
  IEEE 754.
\<close>

fun fneg :: "fval \<Rightarrow> fval" where
  "fneg (Finite x) = Finite (- x)"
| "fneg PosInf = NegInf"
| "fneg NegInf = PosInf"
| "fneg NaN = NaN"

fun fadd :: "(real \<Rightarrow> fval) \<Rightarrow> fval \<Rightarrow> fval \<Rightarrow> fval" where
  "fadd rnd (Finite x) (Finite y) = rnd (x + y)"
| "fadd rnd NaN b = NaN"
| "fadd rnd a NaN = NaN"
| "fadd rnd PosInf NegInf = NaN"
| "fadd rnd NegInf PosInf = NaN"
| "fadd rnd PosInf b = PosInf"
| "fadd rnd NegInf b = NegInf"
| "fadd rnd a PosInf = PosInf"
| "fadd rnd a NegInf = NegInf"

definition fsub :: "(real \<Rightarrow> fval) \<Rightarrow> fval \<Rightarrow> fval \<Rightarrow> fval" where
  "fsub rnd a b = fadd rnd a (fneg b)"

fun fsign :: "fval \<Rightarrow> real" where
  "fsign (Finite x) = sgn x"
| "fsign PosInf = 1"
| "fsign NegInf = - 1"
| "fsign NaN = 0"

text \<open>A product with an infinity is an infinity, except that \<open>0 * \<infinity>\<close> is NaN.\<close>

fun fmul :: "(real \<Rightarrow> fval) \<Rightarrow> fval \<Rightarrow> fval \<Rightarrow> fval" where
  "fmul rnd (Finite x) (Finite y) = rnd (x * y)"
| "fmul rnd a b = (if fsign a * fsign b = 0 then NaN
                   else if 0 < fsign a * fsign b then PosInf else NegInf)"

fun fsqrt :: "(real \<Rightarrow> fval) \<Rightarrow> fval \<Rightarrow> fval" where
  "fsqrt rnd (Finite x) = (if x < 0 then NaN else rnd (sqrt x))"
| "fsqrt rnd PosInf = PosInf"
| "fsqrt rnd NegInf = NaN"
| "fsqrt rnd NaN = NaN"

fun fdivide :: "(real \<Rightarrow> fval) \<Rightarrow> fval \<Rightarrow> fval \<Rightarrow> fval" where
  "fdivide rnd (Finite x) (Finite y) = (if y \<noteq> 0 then rnd (x / y) else fdiv x 0)"
| "fdivide rnd NaN b = NaN"
| "fdivide rnd a NaN = NaN"
| "fdivide rnd (Finite x) b = Finite 0"
| "fdivide rnd a (Finite y) = (if 0 \<le> y then a else fneg a)"
| "fdivide rnd a b = NaN"

text \<open>
  Rounding to nearest, ties to even.  \<open>rne t\<close> is the integer nearest to \<open>t\<close>, the even one
  of the two when \<open>t\<close> lies half way.  \<open>round_to p emin emax\<close> rounds to the binary format
  with \<open>p\<close> digits and exponents from \<open>emin\<close> to \<open>emax\<close>: the number is rounded to a multiple
  of the unit in the last place of its binade (that of the subnormal numbers, below the
  least exponent), and becomes an infinity when the rounded number reaches 2 to the power
  \<open>emax + 1\<close>.  A \<open>float\<close> has 24 digits and exponents from \<open>-126\<close> to 127.
\<close>

definition rne :: "real \<Rightarrow> int" where
  "rne t = (let f = \<lfloor>t\<rfloor> in
            if t - of_int f < 1 / 2 then f
            else if 1 / 2 < t - of_int f then f + 1
            else if even f then f else f + 1)"

definition round_to :: "int \<Rightarrow> int \<Rightarrow> int \<Rightarrow> real \<Rightarrow> fval" where
  "round_to p emin emax x =
     (if x = 0 then Finite 0
      else
        let e = max emin \<lfloor>log 2 \<bar>x\<bar>\<rfloor>;
            ulp = 2 powr of_int (e - p + 1);
            y = of_int (rne (x / ulp)) * ulp
        in if 2 powr of_int (emax + 1) \<le> \<bar>y\<bar> then (if 0 < x then PosInf else NegInf)
           else Finite y)"

definition float32 :: "real \<Rightarrow> fval" where
  "float32 = round_to 24 (- 126) 127"

subsection \<open>The function\<close>

definition ones :: "int \<Rightarrow> int \<Rightarrow> 8 word mat" where
  "ones r c = tabulate r c (\<lambda>row col. 1)"

text \<open>
  The body of the two nested loops, on the accumulators \<open>(E, deviationX, deviationY)\<close>.  The
  grids hold finite floats, given as real numbers.  Each of the statements
  \<open>valueX = X.at<float>(row, col) - meanX\<close>, \<open>E += valueX * valueY\<close> and
  \<open>deviationX += (valueX * valueX)\<close> rounds after every operation.
\<close>

definition cc_body_float ::
  "(real \<Rightarrow> fval) \<Rightarrow> real mat \<Rightarrow> real mat \<Rightarrow> 8 word mat \<Rightarrow> fval \<Rightarrow> fval \<Rightarrow> int
     \<Rightarrow> fval \<times> fval \<times> fval \<Rightarrow> int \<Rightarrow> fval \<times> fval \<times> fval" where
  "cc_body_float rnd X Y region meanX meanY row acc col =
     (case acc of (E, deviationX, deviationY) \<Rightarrow>
        if 0 < mat_at region row col then
          (let valueX = fsub rnd (Finite (mat_at X row col)) meanX;
               valueY = fsub rnd (Finite (mat_at Y row col)) meanY
           in (fadd rnd E (fmul rnd valueX valueY),
               fadd rnd deviationX (fmul rnd valueX valueX),
               fadd rnd deviationY (fmul rnd valueY valueY)))
        else acc)"

definition cc_sums_float ::
  "(real \<Rightarrow> fval) \<Rightarrow> real mat \<Rightarrow> real mat \<Rightarrow> 8 word mat \<Rightarrow> fval \<Rightarrow> fval
     \<Rightarrow> fval \<times> fval \<times> fval" where
  "cc_sums_float rnd X Y region meanX meanY =
     foldl (\<lambda>acc row. foldl (cc_body_float rnd X Y region meanX meanY row) acc [0..cols X - 1])
       (Finite 0, Finite 0, Finite 0) [0..rows X - 1]"

text \<open>
  \<open>crossCorrelation_float rnd cv_mean X Y msk\<close> is the call \<open>crossCorrelation(X, Y, mask)\<close>
  in the arithmetic given by \<open>rnd\<close>: the function of the source for \<open>rnd = float32\<close>.  The
  two assertions on the sizes are branches of the model; the assertions on the element
  types are expressed by the types of the arguments.  A mask that is not empty and has
  another size than \<open>X\<close> is rejected by \<open>cv::mean\<close>.

  \<open>cv::mean\<close> is a library function.  It accumulates in double precision, in an order that
  depends on the build of the library, and the code narrows its result to \<open>float\<close>.  The
  model takes it as the parameter \<open>cv_mean\<close>, which gives the double as a real number, and
  rounds that number.
\<close>

definition crossCorrelation_float ::
  "(real \<Rightarrow> fval) \<Rightarrow> (real mat \<Rightarrow> 8 word mat \<Rightarrow> real) \<Rightarrow> real mat \<Rightarrow> real mat \<Rightarrow> 8 word mat
     \<Rightarrow> error + fval" where
  "crossCorrelation_float rnd cv_mean X Y msk =
     (if rows X \<noteq> rows Y \<or> cols X \<noteq> cols Y then Inl AssertionFailed
      else if \<not> empty_mat msk \<and> (rows msk \<noteq> rows X \<or> cols msk \<noteq> cols X) then Inl CvError
      else
        let region = (if empty_mat msk then ones (rows X) (cols X) else msk);
            meanX = rnd (cv_mean X msk);
            meanY = rnd (cv_mean Y msk)
        in case cc_sums_float rnd X Y region meanX meanY of
             (E, deviationX, deviationY) \<Rightarrow>
               Inr (fdivide rnd E (fmul rnd (fsqrt rnd deviationX) (fsqrt rnd deviationY))))"

text \<open>
  The value of the variable \<open>deviationX\<close> when the loops of the call
  \<open>crossCorrelation(X, X, mask)\<close> end, before its square root is taken.
\<close>

definition deviation_float ::
  "(real \<Rightarrow> fval) \<Rightarrow> (real mat \<Rightarrow> 8 word mat \<Rightarrow> real) \<Rightarrow> real mat \<Rightarrow> 8 word mat \<Rightarrow> fval" where
  "deviation_float rnd cv_mean X msk =
     (let region = (if empty_mat msk then ones (rows X) (cols X) else msk);
          meanX = rnd (cv_mean X msk)
      in case cc_sums_float rnd X X region meanX meanX of
           (E, deviationX, deviationY) \<Rightarrow> deviationX)"

subsection \<open>The function in exact arithmetic\<close>

text \<open>
  The same function with real numbers in the place of the floats: no operation rounds,
  overflows or underflows, and the mean is the exact mean.  It is \<open>crossCorrelation_float\<close>
  for the rounding \<open>Finite\<close> and the mean \<open>mean_cv\<close> (lemma \<open>crossCorrelation_float_exact\<close>).
  The one place where IEEE 754 arithmetic shows in it is the final division, whose divisor
  can be zero.

  \<open>mean_cv\<close> is \<open>cv::mean(src, mask)[0]\<close> computed exactly: the mean of the samples at which
  the mask is not zero, of all samples when the mask is empty, and 0 when no sample is
  selected.
\<close>

definition mean_cv :: "real mat \<Rightarrow> 8 word mat \<Rightarrow> real" where
  "mean_cv src msk =
     (let sel = filter (\<lambda>(row, col). empty_mat msk \<or> mat_at msk row col \<noteq> 0)
                  (List.product [0..rows src - 1] [0..cols src - 1])
      in if sel = [] then 0
         else (\<Sum>(row, col)\<leftarrow>sel. mat_at src row col) / real (length sel))"

text \<open>The body of the two nested loops, on the accumulators \<open>(E, deviationX, deviationY)\<close>.\<close>

definition cc_body ::
  "real mat \<Rightarrow> real mat \<Rightarrow> 8 word mat \<Rightarrow> real \<Rightarrow> real \<Rightarrow> int \<Rightarrow> real \<times> real \<times> real \<Rightarrow> int
     \<Rightarrow> real \<times> real \<times> real" where
  "cc_body X Y region meanX meanY row acc col =
     (case acc of (E, deviationX, deviationY) \<Rightarrow>
        if 0 < mat_at region row col then
          (let valueX = mat_at X row col - meanX;
               valueY = mat_at Y row col - meanY
           in (E + valueX * valueY,
               deviationX + valueX * valueX,
               deviationY + valueY * valueY))
        else acc)"

definition cc_sums ::
  "real mat \<Rightarrow> real mat \<Rightarrow> 8 word mat \<Rightarrow> real \<Rightarrow> real \<Rightarrow> real \<times> real \<times> real" where
  "cc_sums X Y region meanX meanY =
     foldl (\<lambda>acc row. foldl (cc_body X Y region meanX meanY row) acc [0..cols X - 1])
       (0, 0, 0) [0..rows X - 1]"

definition crossCorrelation :: "real mat \<Rightarrow> real mat \<Rightarrow> 8 word mat \<Rightarrow> error + fval" where
  "crossCorrelation X Y msk =
     (if rows X \<noteq> rows Y \<or> cols X \<noteq> cols Y then Inl AssertionFailed
      else if \<not> empty_mat msk \<and> (rows msk \<noteq> rows X \<or> cols msk \<noteq> cols X) then Inl CvError
      else
        let region = (if empty_mat msk then ones (rows X) (cols X) else msk);
            meanX = mean_cv X msk;
            meanY = mean_cv Y msk
        in case cc_sums X Y region meanX meanY of
             (E, deviationX, deviationY) \<Rightarrow>
               Inr (fdiv E (sqrt deviationX * sqrt deviationY)))"

subsection \<open>The score as the specification words it\<close>

text \<open>
  The active samples, the masked mean, the sum \<open>E\<close> and the deviations \<open>DX\<close>, \<open>DY\<close>, written
  as sums over the set of active positions.
\<close>

definition spec_active :: "real mat \<Rightarrow> 8 word mat \<Rightarrow> (int \<times> int) set" where
  "spec_active X msk =
     {p \<in> {0..<rows X} \<times> {0..<cols X}. empty_mat msk \<or> mat_at msk (fst p) (snd p) \<noteq> 0}"

definition spec_mean :: "real mat \<Rightarrow> 8 word mat \<Rightarrow> real" where
  "spec_mean X msk =
     (\<Sum>p \<in> spec_active X msk. mat_at X (fst p) (snd p)) / real (card (spec_active X msk))"

definition spec_E :: "real mat \<Rightarrow> real mat \<Rightarrow> 8 word mat \<Rightarrow> real" where
  "spec_E X Y msk =
     (\<Sum>p \<in> spec_active X msk.
        (mat_at X (fst p) (snd p) - spec_mean X msk) * (mat_at Y (fst p) (snd p) - spec_mean Y msk))"

definition spec_D :: "real mat \<Rightarrow> 8 word mat \<Rightarrow> real" where
  "spec_D X msk =
     sqrt (\<Sum>p \<in> spec_active X msk. (mat_at X (fst p) (snd p) - spec_mean X msk)\<^sup>2)"

definition spec_score :: "real mat \<Rightarrow> real mat \<Rightarrow> 8 word mat \<Rightarrow> fval" where
  "spec_score X Y msk = fdiv (spec_E X Y msk) (spec_D X msk * spec_D Y msk)"

definition negate :: "real mat \<Rightarrow> real mat" where
  "negate X = map (map uminus) X"

section \<open>Symmetric normalisation: \<open>normalizeOne\<close>\<close>

text \<open>
  A matrix of one channel, of two channels, or of any other number of channels.  The library
  function \<open>cv::normalize\<close> with \<open>NORM_MINMAX\<close> and the overload of \<open>normalizeOne\<close> on vectors
  of matrices, which this file calls and does not define, are parameters of the model.
\<close>

datatype cmat = Chan1 "real mat" | Chan2 "real mat" "real mat" | ChanN

text \<open>\<open>cv::minMaxLoc\<close>: the least and the greatest element.\<close>

definition minMaxLoc :: "real mat \<Rightarrow> real \<times> real" where
  "minMaxLoc src = (Min (set (concat src)), Max (set (concat src)))"

definition normalizeOne ::
  "(real mat \<Rightarrow> fval \<Rightarrow> fval \<Rightarrow> real mat) \<Rightarrow> (real mat list \<Rightarrow> real mat list) \<Rightarrow> cmat
     \<Rightarrow> error + cmat" where
  "normalizeOne cv_normalize normalizeOne_vec src =
     (case src of
        Chan1 g \<Rightarrow>
          (case minMaxLoc g of (mn, mx) \<Rightarrow>
             let scale = max \<bar>mn\<bar> \<bar>mx\<bar>
             in Inr (Chan1 (cv_normalize g (fdiv mn scale) (fdiv mx scale))))
      | Chan2 re im \<Rightarrow>
          (case normalizeOne_vec [re, im] of
             [a, b] \<Rightarrow> Inr (Chan2 a b)
           | _ \<Rightarrow> Inl CvError)
      | ChanN \<Rightarrow> Inl AssertionFailed)"

section \<open>Quadrant swap: \<open>swapQuadrants\<close>\<close>

text \<open>
  \<open>q0\<close> to \<open>q3\<close> are views of the image: copying into one of them writes into the image.
  \<open>write_roi img x y sub\<close> is the image after \<open>sub.copyTo(view)\<close> for the view at \<open>(x, y)\<close>
  of the size of \<open>sub\<close>; an empty \<open>sub\<close> writes nothing.  The four rectangles lie inside the
  image whatever its size, so the views are taken by \<open>sub_mat\<close>.  The divisions by 2 are C++
  divisions.
\<close>

definition write_roi :: "'a mat \<Rightarrow> int \<Rightarrow> int \<Rightarrow> 'a mat \<Rightarrow> 'a mat" where
  "write_roi img x y sub =
     tabulate (rows img) (cols img)
       (\<lambda>row col. if y \<le> row \<and> row < y + rows sub \<and> x \<le> col \<and> col < x + cols sub
                   then mat_at sub (row - y) (col - x)
                   else mat_at img row col)"

definition swapQuadrants :: "'a mat \<Rightarrow> 'a mat" where
  "swapQuadrants img =
     (let cx = cols img sdiv 2;
          cy = rows img sdiv 2;
          tmp = sub_mat img 0 0 cx cy;
          img1 = write_roi img 0 0 (sub_mat img cx cy cx cy);
          img2 = write_roi img1 cx cy tmp;
          tmp2 = sub_mat img2 cx 0 cx cy;
          img3 = write_roi img2 cx 0 (sub_mat img2 0 cy cx cy)
      in write_roi img3 0 cy tmp2)"

section \<open>Edge taper: \<open>edgeTaper\<close>\<close>

text \<open>A \<open>cv::Point\<close> is the pair \<open>(x, y)\<close>, that is (column, row).\<close>

type_synonym point = "int \<times> int"

type_synonym scan = "8 word mat \<times> 8 word \<times> point"

definition fillPixel :: "8 word mat \<Rightarrow> point \<Rightarrow> point \<Rightarrow> 8 word \<Rightarrow> 8 word mat" where
  "fillPixel img start endp color =
     foldl (\<lambda>im row. foldl (\<lambda>im col. set_at im row col color) im [fst start..fst endp])
       img [snd start..snd endp]"

text \<open>
  The body of the first pair of loops.  The state is the image \<open>taperedHorizontal\<close> and the
  variables \<open>left\<close> and \<open>start\<close>, which live across the iterations (and across the rows);
  \<open>val\<close> is the local variable \<open>value\<close>.  The threshold is 0, and the divisions by 2 are C++
  divisions, which truncate.
\<close>

definition hstep :: "8 word mat \<Rightarrow> int \<Rightarrow> scan \<Rightarrow> int \<Rightarrow> scan" where
  "hstep src row st col =
     (case st of (tapered, left, start) \<Rightarrow>
        let val = mat_at src row col in
        if start \<noteq> (-1, -1) then
          (if 0 < val \<or> col = cols src - 1 then
             (let endp = (col - ((col - fst start) sdiv 2), row - ((row - snd start) sdiv 2));
                  left1 = (if fst start = 0 then val else left);
                  tapered1 = fillPixel tapered start endp left1;
                  val1 = (if col = cols src - 1 then left1 else val);
                  tapered2 = fillPixel tapered1 endp (col, row) val1
              in (tapered2, left1, (-1, -1)))
           else (tapered, left, start))
        else
          (if val \<le> 0
           then (tapered, (if 0 < col then mat_at src row (col - 1) else 0), (col, row))
           else (tapered, left, start)))"

definition scan_rows :: "8 word mat \<Rightarrow> scan \<Rightarrow> int list \<Rightarrow> scan" where
  "scan_rows src st rs = foldl (\<lambda>st row. foldl (hstep src row) st [0..cols src - 1]) st rs"

definition taperHorizontal :: "8 word mat \<Rightarrow> 8 word mat" where
  "taperHorizontal src = fst (scan_rows src (src, 0, (-1, -1)) [0..rows src - 1])"

text \<open>
  The state of the first pair of loops at the moment it reaches the pixel \<open>(row, col)\<close>: the
  rows before \<open>row\<close> are done, and so are the columns before \<open>col\<close> of the row \<open>row\<close>.
\<close>

definition scan_upto :: "8 word mat \<Rightarrow> int \<Rightarrow> int \<Rightarrow> scan" where
  "scan_upto src row col =
     foldl (hstep src row) (scan_rows src (src, 0, (-1, -1)) [0..row - 1]) [0..col - 1]"

text \<open>
  The invariant of the first pair of loops at that moment: the image has the size of the
  source; if a run is open, its start is a position of the image in the current row or
  (when it was opened in the last column) in the row before, and \<open>left\<close> is the pixel left of
  the start (0 at column 0); the pixels from \<open>(row, col)\<close> on are still those of the source.
\<close>

definition scan_inv :: "8 word mat \<Rightarrow> int \<Rightarrow> int \<Rightarrow> scan \<Rightarrow> bool" where
  "scan_inv src row col st \<longleftrightarrow>
     (case st of (tapered, left, start) \<Rightarrow>
        has_size tapered (rows src) (cols src) \<and>
        (start = (-1, -1) \<or>
         (0 \<le> fst start \<and> fst start < cols src \<and> 0 \<le> snd start \<and> snd start \<le> row \<and>
          left = (if 0 < fst start then mat_at src (snd start) (fst start - 1) else 0))) \<and>
        (\<forall>i j. 0 \<le> i \<and> i < rows src \<and> 0 \<le> j \<and> j < cols src \<and>
               (row < i \<or> (row = i \<and> col \<le> j))
               \<longrightarrow> mat_at tapered i j = mat_at src i j))"

text \<open>The body of the second pair of loops (columns outside, rows inside).\<close>

definition vstep :: "8 word mat \<Rightarrow> int \<Rightarrow> scan \<Rightarrow> int \<Rightarrow> scan" where
  "vstep src col st row =
     (case st of (tapered, left, start) \<Rightarrow>
        let val = mat_at src row col in
        if start \<noteq> (-1, -1) then
          (if 0 < val \<or> row = rows src - 1 then
             (let endp = (col - ((col - fst start) sdiv 2), row - ((row - snd start) sdiv 2));
                  left1 = (if snd start = 0 then val else left);
                  tapered1 = fillPixel tapered start endp left1;
                  val1 = (if row = rows src - 1 then left1 else val);
                  tapered2 = fillPixel tapered1 endp (col, row) val1
              in (tapered2, left1, (-1, -1)))
           else (tapered, left, start))
        else
          (if val \<le> 0
           then (tapered, (if 0 < row then mat_at src (row - 1) col else 0), (col, row))
           else (tapered, left, start)))"

definition taperVertical :: "8 word mat \<Rightarrow> 8 word mat" where
  "taperVertical src =
     fst (foldl (\<lambda>st col. foldl (vstep src col) st [0..rows src - 1])
            (src, 0, (-1, -1)) [0..cols src - 1])"

text \<open>
  \<open>edgeTaper\<close> takes its four images by reference, \<open>Mat& src, Mat& dst, Mat& mask,
  Mat& image\<close>, writes \<open>dst\<close> several times and reads \<open>src\<close> and \<open>mask\<close> after the first
  of these writes.  The caller can pass one object for two of the parameters, so the images
  are kept in a store: a reference is an address, and the store gives the contents of the
  object at each address.  Two references are either the same address, and then denote one
  image, or different addresses, and then denote images that share no pixel; references to
  two overlapping views of one buffer are not modelled.  The local images of the function
  (\<open>taperedHorizontal\<close>, \<open>taperedVertical\<close>, \<open>imageGauss\<close>) are objects of their own and
  stay values.
\<close>

type_synonym addr = nat

type_synonym store = "addr \<Rightarrow> 8 word mat"

type_synonym mscan = "store \<times> 8 word \<times> point"

text \<open>
  The body of the third pair of loops, which reads and writes \<open>dst\<close> and is steered by the
  mask.  It reads \<open>src.cols\<close>, \<open>mask\<close> and \<open>dst\<close> from the store as it is at that moment.
\<close>

definition mstep :: "addr \<Rightarrow> addr \<Rightarrow> addr \<Rightarrow> int \<Rightarrow> mscan \<Rightarrow> int \<Rightarrow> mscan" where
  "mstep src dst msk row st col =
     (case st of (h, left, start) \<Rightarrow>
        let val = mat_at (h dst) row col in
        if start \<noteq> (-1, -1) then
          (if mat_at (h msk) row col = 0 \<or> col = cols (h src) - 1 then
             (let endp = (col - ((col - fst start) sdiv 2), row - ((row - snd start) sdiv 2));
                  left1 = (if fst start = 0 then val else left);
                  h1 = h(dst := fillPixel (h dst) start endp left1);
                  val1 = (if col = cols (h1 src) - 1 then left1 else val);
                  h2 = h1(dst := fillPixel (h1 dst) endp (col, row) val1)
              in (h2, left1, (-1, -1)))
           else (h, left, start))
        else
          (if 0 < mat_at (h msk) row col
           then (h, (if 0 < col then mat_at (h dst) row (col - 1) else 0), (col, row))
           else (h, left, start)))"

text \<open>
  The third pair of loops.  Its bounds are \<open>src.rows\<close> and \<open>src.cols\<close>; the loops write single
  pixels only, which changes the size of no image, so the bounds are those at the start.
\<close>

definition fillMask :: "addr \<Rightarrow> addr \<Rightarrow> addr \<Rightarrow> store \<Rightarrow> store" where
  "fillMask src dst msk h =
     fst (foldl (\<lambda>st row. foldl (mstep src dst msk row) st [0..cols (h src) - 1])
            (h, 0, (-1, -1)) [0..rows (h src) - 1])"

text \<open>
  \<open>cv::addWeighted\<close> and \<open>cv::GaussianBlur\<close> on 8-bit images are library functions; the model
  takes them as parameters.  \<open>addWeighted\<close> throws when its two images differ in size.
\<close>

record cvlib =
  addWeighted :: "8 word mat \<Rightarrow> real \<Rightarrow> 8 word mat \<Rightarrow> real \<Rightarrow> real \<Rightarrow> 8 word mat"
  GaussianBlur :: "8 word mat \<Rightarrow> int \<Rightarrow> 8 word mat"

definition same_size :: "'a mat \<Rightarrow> 'b mat \<Rightarrow> bool" where
  "same_size a b \<longleftrightarrow> rows a = rows b \<and> cols a = cols b"

text \<open>
  \<open>src.copyTo(dst, mask)\<close>: the mask must have the size of the source; a destination of
  another size is allocated anew and zeroed; then the source is copied where the mask is not
  zero.
\<close>

definition copyTo_masked :: "8 word mat \<Rightarrow> 8 word mat \<Rightarrow> 8 word mat \<Rightarrow> error + 8 word mat" where
  "copyTo_masked src dst msk =
     (if \<not> same_size msk src then Inl CvError
      else let dst0 = (if same_size dst src then dst
                       else tabulate (rows src) (cols src) (\<lambda>row col. 0))
           in Inr (tabulate (rows src) (cols src)
                     (\<lambda>row col. if mat_at msk row col \<noteq> 0 then mat_at src row col
                                 else mat_at dst0 row col)))"

text \<open>
  \<open>edgeTaper lib h src dst msk img\<close> is the call \<open>edgeTaper(src, dst, mask, image)\<close> in the
  store \<open>h\<close>; \<open>img\<close> is the address of the guide image, the parameter \<open>image\<close> of the
  source.  The result is the store after the call.  The two tapering passes read \<open>src\<close>
  and write local images.  From the first \<open>addWeighted\<close> on every stage writes \<open>dst\<close>, and
  every later read of \<open>src\<close>, \<open>mask\<close> or \<open>image\<close> sees what the store holds then: when
  \<open>dst\<close> is the object \<open>src\<close>, the final \<open>src.copyTo(dst, mask)\<close> copies the blurred image
  onto itself.  The third pass reads the mask at every position of the source, and the final
  \<open>copyTo\<close> asserts that the mask has the size of the source: a mask of another size is an
  error.
\<close>

definition edgeTaper :: "cvlib \<Rightarrow> store \<Rightarrow> addr \<Rightarrow> addr \<Rightarrow> addr \<Rightarrow> addr \<Rightarrow> error + store" where
  "edgeTaper lib h src dst msk img =
     (if \<not> same_size (h msk) (h src) then Inl CvError
      else
        let taperedHorizontal = taperHorizontal (h src);
            taperedVertical = taperVertical (h src);
            h1 = h(dst := addWeighted lib taperedHorizontal 0.5 taperedVertical 0.5 0.0);
            h2 = fillMask src dst msk h1;
            imageGauss = GaussianBlur lib (h2 img) 19
        in if \<not> same_size (h2 dst) imageGauss then Inl CvError
           else
             let h3 = h2(dst := addWeighted lib (h2 dst) 0.7 imageGauss 0.3 0.0);
                 h4 = h3(dst := GaussianBlur lib (h3 dst) 51)
             in case copyTo_masked (h4 src) (h4 dst) (h4 msk) of
                  Inl e \<Rightarrow> Inl e
                | Inr d \<Rightarrow> Inr (h4(dst := d)))"

text \<open>The contents of \<open>dst\<close> after the call.\<close>

definition edgeTaper_dst ::
  "cvlib \<Rightarrow> store \<Rightarrow> addr \<Rightarrow> addr \<Rightarrow> addr \<Rightarrow> addr \<Rightarrow> error + 8 word mat" where
  "edgeTaper_dst lib h src dst msk img =
     (case edgeTaper lib h src dst msk img of Inl e \<Rightarrow> Inl e | Inr h' \<Rightarrow> Inr (h' dst))"

text \<open>A store for the examples: every address holds the empty image.\<close>

definition no_images :: store where
  "no_images = (\<lambda>a. [])"

text \<open>The library functions keep the size of their (first) argument.\<close>

definition lib_ok :: "cvlib \<Rightarrow> bool" where
  "lib_ok lib \<longleftrightarrow>
     (\<forall>a al b be ga r c. has_size a r c \<longrightarrow> has_size (addWeighted lib a al b be ga) r c) \<and>
     (\<forall>a k r c. has_size a r c \<longrightarrow> has_size (GaussianBlur lib a k) r c)"

section \<open>Invariants of loops\<close>

lemma foldl_invariant:
  assumes "\<And>st a. P st \<Longrightarrow> P (f st a)" and "P st"
  shows "P (foldl f st xs)"
  using assms(2) by (induction xs arbitrary: st) (simp_all add: assms(1))

lemma foldl_invariant_in:
  assumes "\<And>st a. a \<in> set xs \<Longrightarrow> P st \<Longrightarrow> P (f st a)" and "P st"
  shows "P (foldl f st xs)"
  using assms by (induction xs arbitrary: st) simp_all

lemma foldl_related:
  assumes "\<And>s t a. a \<in> set xs \<Longrightarrow> R s t \<Longrightarrow> R (f s a) (g t a)" and "R s t"
  shows "R (foldl f s xs) (foldl g t xs)"
  using assms by (induction xs arbitrary: s t) simp_all

section \<open>Properties of grids\<close>

lemma has_sizeI:
  "int (length m) = r \<Longrightarrow> 1 \<le> r \<Longrightarrow> (\<And>x. x \<in> set m \<Longrightarrow> int (length x) = c) \<Longrightarrow> has_size m r c"
  by (cases m) (auto simp: has_size_def rows_def cols_def mat_ok_def)

lemma has_size_row:
  "has_size m r c \<Longrightarrow> x \<in> set m \<Longrightarrow> int (length x) = c"
  by (auto simp: has_size_def mat_ok_def)

lemma length_upto0 [simp]: "length [0..n - 1] = nat n"
  by simp

lemma copyMakeBorder_size:
  assumes "has_size src r c" "1 \<le> r" "0 \<le> py" "0 \<le> px"
  shows "\<exists>zp. copyMakeBorder src py py px px = Inr zp \<and> has_size zp (r + 2 * py) (c + 2 * px)"
proof -
  have len: "int (length src) = r" and c: "cols src = c"
    using assms(1) by (simp_all add: has_size_def rows_def)
  have rowlen: "\<And>x. x \<in> set src \<Longrightarrow> int (length x) = c"
    using assms(1) by (rule has_size_row)
  have c0: "0 \<le> c" using c by (simp add: cols_def split: list.splits)
  define zp where "zp = replicate (nat py) (replicate (nat (c + px + px)) (0::real))
       @ map (\<lambda>r. replicate (nat px) 0 @ r @ replicate (nat px) 0) src
       @ replicate (nat py) (replicate (nat (c + px + px)) 0)"
  have "has_size zp (r + 2 * py) (c + 2 * px)"
  proof (rule has_sizeI)
    show "int (length zp) = r + 2 * py" using len assms(3) by (simp add: zp_def)
    show "1 \<le> r + 2 * py" using assms(2,3) by simp
    fix x assume "x \<in> set zp"
    then consider "x = replicate (nat (c + px + px)) 0"
      | z where "z \<in> set src" "x = replicate (nat px) 0 @ z @ replicate (nat px) 0"
      by (auto simp: zp_def)
    then show "int (length x) = c + 2 * px"
    proof cases
      case 1 then show ?thesis using c0 assms(4) by simp
    next
      case 2 then show ?thesis using rowlen[of z] assms(4) by simp
    qed
  qed
  moreover have "copyMakeBorder src py py px px = Inr zp"
    using assms(3,4) by (simp add: copyMakeBorder_def zp_def c Let_def)
  ultimately show ?thesis by blast
qed

lemma filter2D_size:
  assumes "has_size src r c" "1 \<le> r"
  shows "has_size (filter2D src k a) r c"
proof -
  have "rows src = r" "cols src = c" using assms(1) by (simp_all add: has_size_def)
  moreover have "0 \<le> c" using \<open>cols src = c\<close> by (simp add: cols_def split: list.splits)
  ultimately show ?thesis using assms(2)
    by (auto simp: filter2D_def intro!: has_sizeI)
qed

lemma roi_size:
  assumes "has_size m r c" "0 \<le> x" "0 \<le> w" "x + w \<le> c" "0 \<le> y" "1 \<le> h" "y + h \<le> r"
  shows "\<exists>d. roi m x y w h = Inr d \<and> has_size d h w"
proof -
  have len: "int (length m) = r" and c: "cols m = c" and r: "rows m = r"
    using assms(1) by (simp_all add: has_size_def rows_def)
  have rowlen: "\<And>z. z \<in> set m \<Longrightarrow> int (length z) = c"
    using assms(1) by (rule has_size_row)
  have "has_size (map (\<lambda>r. take (nat w) (drop (nat x) r)) (take (nat h) (drop (nat y) m))) h w"
  proof (rule has_sizeI)
    show "int (length (map (\<lambda>r. take (nat w) (drop (nat x) r)) (take (nat h) (drop (nat y) m)))) = h"
      using assms len by simp
    show "1 \<le> h" by fact
    fix z assume "z \<in> set (map (\<lambda>r. take (nat w) (drop (nat x) r)) (take (nat h) (drop (nat y) m)))"
    then obtain z' where z': "z' \<in> set m" "z = take (nat w) (drop (nat x) z')"
      by (auto dest!: in_set_takeD in_set_dropD)
    show "int (length z) = w"
      using rowlen[OF z'(1)] z'(2) assms by simp
  qed
  then show ?thesis using assms c r by (simp add: roi_def sub_mat_def)
qed

text \<open>
  Claim C1.  For a source grid of \<open>r\<close> rows and \<open>c\<close> columns and a kernel of \<open>kh\<close> rows and
  \<open>kw\<close> columns (all at least 1), \<open>conv2\<close> returns a grid of size
  \<open>(r + kh - 1) \<times> (c + kw - 1)\<close> under \<open>FULL\<close>, of size \<open>r \<times> c\<close> under \<open>SAME\<close>, and, when the
  kernel is not larger than the source, of size \<open>(r - kh + 1) \<times> (c - kw + 1)\<close> under \<open>VALID\<close>.
\<close>

theorem conv2_size:
  assumes "has_size src r c" "has_size kern kh kw" "1 \<le> r" "1 \<le> c" "1 \<le> kh" "1 \<le> kw"
  shows "(\<exists>d. conv2 src kern FULL = Inr d \<and> has_size d (r + kh - 1) (c + kw - 1)) \<and>
         (\<exists>d. conv2 src kern SAME = Inr d \<and> has_size d r c) \<and>
         (kh \<le> r \<and> kw \<le> c \<longrightarrow>
            (\<exists>d. conv2 src kern VALID = Inr d \<and> has_size d (r - kh + 1) (c - kw + 1)))"
proof -
  have k: "rows kern = kh" "cols kern = kw" and s: "rows src = r" "cols src = c"
    using assms(1,2) by (simp_all add: has_size_def)
  obtain zp where zp: "copyMakeBorder src (kh - 1) (kh - 1) (kw - 1) (kw - 1) = Inr zp"
    and zps: "has_size zp (r + 2 * (kh - 1)) (c + 2 * (kw - 1))"
    using copyMakeBorder_size[OF assms(1,3), of "kh - 1" "kw - 1"] assms(5,6) by auto
  define tmp where "tmp = filter2D zp (flip_both kern) (0, 0)"
  have tmps: "has_size tmp (r + 2 * (kh - 1)) (c + 2 * (kw - 1))"
    unfolding tmp_def using zps assms(3,5) by (intro filter2D_size) auto
  then have t: "rows tmp = r + 2 * (kh - 1)" "cols tmp = c + 2 * (kw - 1)"
    by (simp_all add: has_size_def)
  have conv: "conv2 src kern shape = crop src kern tmp shape" for shape
    by (simp add: conv2_def k zp tmp_def)
  have sd: "j sdiv 2 = j div 2" if "0 \<le> j" for j :: int
    using that by (simp add: signed_divide_int_def sgn_if)
  have xs: "(cols tmp - (cols kern - 1) - cols src + 1) sdiv 2 = kw div 2"
    and ys: "(rows tmp - (rows kern - 1) - rows src + 1) sdiv 2 = kh div 2"
    using sd[of kw] sd[of kh] assms(5,6) by (simp_all add: k s t)
  have xv: "(cols tmp - (cols kern - 1) - (cols src - cols kern + 1)) sdiv 2 = kw - 1"
    and yv: "(rows tmp - (rows kern - 1) - (rows src - rows kern + 1)) sdiv 2 = kh - 1"
    using sd[of "2 * (kw - 1)"] sd[of "2 * (kh - 1)"] assms(5,6) by (simp_all add: k s t)
  have full: "\<exists>d. conv2 src kern FULL = Inr d \<and> has_size d (r + kh - 1) (c + kw - 1)"
    using roi_size[OF tmps, of 0 "c + kw - 1" 0 "r + kh - 1"] assms(3-6)
    by (simp add: conv crop_def k s t algebra_simps)
  have same: "\<exists>d. conv2 src kern SAME = Inr d \<and> has_size d r c"
  proof -
    have "kw div 2 \<le> 2 * kw - 2" "kh div 2 \<le> 2 * kh - 2" "0 \<le> kw div 2" "0 \<le> kh div 2"
      using assms(5,6) by presburger+
    then obtain d where "roi tmp (kw div 2) (kh div 2) c r = Inr d" "has_size d r c"
      using roi_size[OF tmps, of "kw div 2" c "kh div 2" r] assms(3-6) by auto
    then show ?thesis
      by (simp only: conv crop_def Let_def ConvShape.simps xs ys) (simp add: s)
  qed
  have valid: "\<exists>d. conv2 src kern VALID = Inr d \<and> has_size d (r - kh + 1) (c - kw + 1)"
    if v: "kh \<le> r" "kw \<le> c"
  proof -
    obtain d where "roi tmp (kw - 1) (kh - 1) (c - kw + 1) (r - kh + 1) = Inr d"
        "has_size d (r - kh + 1) (c - kw + 1)"
      using roi_size[OF tmps, of "kw - 1" "c - kw + 1" "kh - 1" "r - kh + 1"] assms(3-6) v
      by auto
    then show ?thesis
      by (simp only: conv crop_def Let_def ConvShape.simps xv yv) (simp add: s k)
  qed
  show ?thesis using full same valid by blast
qed

theorem conv2_size_witness:
  "has_size [[1, 2, 3, 4], [5, 6, 7, 8], [9, 10, 11, 12 :: real]] 3 4 \<and>
   has_size [[1, 0], [0, 1 :: real]] 2 2 \<and>
   (\<exists>d. conv2 [[1, 2, 3, 4], [5, 6, 7, 8], [9, 10, 11, 12]] [[1, 0], [0, 1]] FULL = Inr d
        \<and> has_size d 4 5) \<and>
   (\<exists>d. conv2 [[1, 2, 3, 4], [5, 6, 7, 8], [9, 10, 11, 12]] [[1, 0], [0, 1]] SAME = Inr d
        \<and> has_size d 3 4) \<and>
   (\<exists>d. conv2 [[1, 2, 3, 4], [5, 6, 7, 8], [9, 10, 11, 12]] [[1, 0], [0, 1]] VALID = Inr d
        \<and> has_size d 2 3)"
proof -
  have s: "has_size [[1, 2, 3, 4], [5, 6, 7, 8], [9, 10, 11, 12 :: real]] 3 4"
    and k: "has_size [[1, 0], [0, 1 :: real]] 2 2"
    by (simp_all add: has_size_def rows_def cols_def mat_ok_def)
  show ?thesis
    using conv2_size [OF s k] s k by simp
qed

text \<open>
  Claim C3.  For the source row \<open>[1, 2, 3, 4]\<close> and the kernel \<open>[0.5, 0, 0.5]\<close>, \<open>conv2\<close> with
  \<open>VALID\<close> returns the row \<open>[2, 3]\<close>, and with \<open>FULL\<close> the row of six samples
  \<open>[0.5, 1, 2, 3, 1.5, 2]\<close>, whose first two and last two samples are the sums in which
  the kernel overlaps the zero padding.  All the values involved are dyadic fractions, so the
  computation on \<open>float\<close>s is exact and agrees with the one on real numbers.
\<close>

theorem conv2_example:
  "conv2 [[1, 2, 3, 4]] [[1 / 2, 0, 1 / 2]] VALID = Inr [[2, 3]] \<and>
   conv2 [[1, 2, 3, 4]] [[1 / 2, 0, 1 / 2]] FULL = Inr [[1 / 2, 1, 2, 3, 3 / 2, 2]]"
  by code_simp

section \<open>The correlation loop computes the sums of the specification\<close>

lemma mat_at_tabulate:
  "0 \<le> row \<Longrightarrow> row < r \<Longrightarrow> 0 \<le> col \<Longrightarrow> col < c \<Longrightarrow> mat_at (tabulate r c f) row col = f row col"
  by (simp add: mat_at_def tabulate_def)

lemma foldl_cc_body:
  "foldl (cc_body X Y region mX mY row) (E, dx, dy) cs =
     (E + (\<Sum>col\<leftarrow>cs. if 0 < mat_at region row col
                          then (mat_at X row col - mX) * (mat_at Y row col - mY) else 0),
      dx + (\<Sum>col\<leftarrow>cs. if 0 < mat_at region row col then (mat_at X row col - mX)\<^sup>2 else 0),
      dy + (\<Sum>col\<leftarrow>cs. if 0 < mat_at region row col then (mat_at Y row col - mY)\<^sup>2 else 0))"
  by (induction cs arbitrary: E dx dy) (simp_all add: cc_body_def Let_def power2_eq_square)

lemma foldl_cc_rows:
  "foldl (\<lambda>acc row. foldl (cc_body X Y region mX mY row) acc cs) (E, dx, dy) rs =
     (E + (\<Sum>row\<leftarrow>rs. \<Sum>col\<leftarrow>cs. if 0 < mat_at region row col
                          then (mat_at X row col - mX) * (mat_at Y row col - mY) else 0),
      dx + (\<Sum>row\<leftarrow>rs. \<Sum>col\<leftarrow>cs. if 0 < mat_at region row col then (mat_at X row col - mX)\<^sup>2 else 0),
      dy + (\<Sum>row\<leftarrow>rs. \<Sum>col\<leftarrow>cs. if 0 < mat_at region row col then (mat_at Y row col - mY)\<^sup>2 else 0))"
  by (induction rs arbitrary: E dx dy) (simp_all add: foldl_cc_body)

lemma sum_list_upto0: "(\<Sum>i\<leftarrow>[0..n - 1]. f i) = (\<Sum>i \<in> {0..<n}. f i)" for f :: "int \<Rightarrow> real"
proof -
  have "set [0..n - 1] = {0..<n}" by auto
  then show ?thesis
    using sum_list_distinct_conv_sum_set [of "[0..n - 1]" f] by simp
qed

lemma grid_sum:
  "(\<Sum>row\<leftarrow>[0..r - 1]. \<Sum>col\<leftarrow>[0..c - 1]. if P row col then g row col else 0) =
   (\<Sum>p \<in> {p \<in> {0..<r} \<times> {0..<c}. P (fst p) (snd p)}. g (fst p) (snd p))"
  (is "?l = ?r") for g :: "int \<Rightarrow> int \<Rightarrow> real"
proof -
  have "?l = (\<Sum>row \<in> {0..<r}. \<Sum>col \<in> {0..<c}. if P row col then g row col else 0)"
    by (simp add: sum_list_upto0)
  also have "\<dots> = (\<Sum>p \<in> {0..<r} \<times> {0..<c}. if P (fst p) (snd p) then g (fst p) (snd p) else 0)"
    by (simp add: sum.cartesian_product case_prod_unfold)
  also have "\<dots> = ?r"
    by (rule sum.inter_filter [symmetric]) simp
  finally show ?thesis .
qed

lemma region_active:
  assumes "0 \<le> row" "row < rows X" "0 \<le> col" "col < cols X"
  shows "0 < mat_at (if empty_mat msk then ones (rows X) (cols X) else msk) row col
         \<longleftrightarrow> empty_mat msk \<or> mat_at msk row col \<noteq> 0"
  using assms by (auto simp: ones_def mat_at_tabulate word_gt_0)

lemma sel_set:
  "set (filter (\<lambda>(row, col). empty_mat msk \<or> mat_at msk row col \<noteq> 0)
          (List.product [0..rows X - 1] [0..cols X - 1])) = spec_active X msk"
  by (auto simp: spec_active_def)

lemma mean_cv_spec: "mean_cv X msk = spec_mean X msk"
proof -
  define sel where "sel = filter (\<lambda>(row, col). empty_mat msk \<or> mat_at msk row col \<noteq> 0)
          (List.product [0..rows X - 1] [0..cols X - 1])"
  have d: "distinct sel" by (simp add: sel_def distinct_product)
  have s: "set sel = spec_active X msk" unfolding sel_def by (rule sel_set)
  have sum: "(\<Sum>(row, col)\<leftarrow>sel. mat_at X row col) = (\<Sum>p \<in> spec_active X msk. mat_at X (fst p) (snd p))"
    using sum_list_distinct_conv_sum_set [OF d, of "\<lambda>p. mat_at X (fst p) (snd p)"]
    by (simp add: s case_prod_unfold)
  have len: "length sel = card (spec_active X msk)"
    using distinct_card [OF d] by (simp add: s)
  have "sel = [] \<Longrightarrow> spec_mean X msk = 0"
    using len by (simp add: spec_mean_def)
  then show ?thesis
    unfolding mean_cv_def sel_def [symmetric] Let_def
    by (simp add: sum len spec_mean_def)
qed

lemma cc_sums_spec:
  "cc_sums X Y (if empty_mat msk then ones (rows X) (cols X) else msk) mX mY =
    ((\<Sum>p \<in> spec_active X msk. (mat_at X (fst p) (snd p) - mX) * (mat_at Y (fst p) (snd p) - mY)),
     (\<Sum>p \<in> spec_active X msk. (mat_at X (fst p) (snd p) - mX)\<^sup>2),
     (\<Sum>p \<in> spec_active X msk. (mat_at Y (fst p) (snd p) - mY)\<^sup>2))"
proof -
  let ?reg = "if empty_mat msk then ones (rows X) (cols X) else msk"
  have act: "{p \<in> {0..<rows X} \<times> {0..<cols X}. 0 < mat_at ?reg (fst p) (snd p)} = spec_active X msk"
    unfolding spec_active_def using region_active [of _ X _ msk] by auto
  show ?thesis
    unfolding cc_sums_def foldl_cc_rows grid_sum act by simp
qed

lemma spec_active_cong: "rows X = rows Y \<Longrightarrow> cols X = cols Y \<Longrightarrow> spec_active X msk = spec_active Y msk"
  by (simp add: spec_active_def)

lemma crossCorrelation_spec:
  assumes "rows X = rows Y" "cols X = cols Y" "empty_mat msk \<or> (rows msk = rows X \<and> cols msk = cols X)"
  shows "crossCorrelation X Y msk = Inr (spec_score X Y msk)"
proof -
  have a: "spec_active Y msk = spec_active X msk"
    using assms by (simp add: spec_active_def)
  have my: "spec_mean Y msk = (\<Sum>p \<in> spec_active X msk. mat_at Y (fst p) (snd p)) / real (card (spec_active X msk))"
    by (simp add: spec_mean_def a)
  show ?thesis
    using assms
    by (auto simp add: crossCorrelation_def Let_def mean_cv_spec cc_sums_spec spec_score_def spec_E_def spec_D_def a)
qed

section \<open>The sums of the specification\<close>

lemma has_size_dims: "has_size m r c \<Longrightarrow> rows m = r \<and> cols m = c"
  by (simp add: has_size_def)

lemma finite_spec_active [simp]: "finite (spec_active X msk)"
  by (simp add: spec_active_def)

lemma spec_D_sq: "(spec_D X msk)\<^sup>2 = (\<Sum>p \<in> spec_active X msk. (mat_at X (fst p) (snd p) - spec_mean X msk)\<^sup>2)"
  by (simp add: spec_D_def sum_nonneg)

lemma spec_D_zero_iff:
  "spec_D X msk = 0 \<longleftrightarrow> (\<forall>p \<in> spec_active X msk. mat_at X (fst p) (snd p) = spec_mean X msk)"
  by (simp add: spec_D_def sum_nonneg sum_nonneg_eq_0_iff)

lemma spec_D_const:
  assumes "\<forall>p \<in> spec_active X msk. mat_at X (fst p) (snd p) = v"
  shows "spec_D X msk = 0"
proof (cases "spec_active X msk = {}")
  case True
  then show ?thesis by (simp add: spec_D_def)
next
  case False
  then have "card (spec_active X msk) \<noteq> 0" by simp
  then have "spec_mean X msk = v"
    using assms by (simp add: spec_mean_def)
  then show ?thesis using assms by (simp add: spec_D_zero_iff)
qed

lemma spec_D_distinct:
  assumes "p \<in> spec_active X msk" "q \<in> spec_active X msk"
    "mat_at X (fst p) (snd p) \<noteq> mat_at X (fst q) (snd q)"
  shows "spec_D X msk \<noteq> 0"
proof
  assume "spec_D X msk = 0"
  then have "mat_at X (fst p) (snd p) = spec_mean X msk" "mat_at X (fst q) (snd q) = spec_mean X msk"
    using assms(1,2) by (simp_all add: spec_D_zero_iff)
  then show False using assms(3) by simp
qed

lemma spec_E_zero:
  assumes "spec_D X msk = 0 \<or> spec_D Y msk = 0" "spec_active Y msk = spec_active X msk"
  shows "spec_E X Y msk = 0"
  using assms by (auto simp: spec_E_def spec_D_zero_iff)

lemma spec_E_self: "spec_E X X msk = (spec_D X msk)\<^sup>2"
  by (simp add: spec_E_def spec_D_sq power2_eq_square [symmetric])

lemma rows_negate [simp]: "rows (negate X) = rows X"
  by (simp add: rows_def negate_def)

lemma cols_negate [simp]: "cols (negate X) = cols X"
  by (cases X) (simp_all add: cols_def negate_def)

lemma spec_active_negate [simp]: "spec_active (negate X) msk = spec_active X msk"
  by (simp add: spec_active_def)

lemma spec_active_range:
  "p \<in> spec_active X msk \<Longrightarrow> 0 \<le> fst p \<and> fst p < rows X \<and> 0 \<le> snd p \<and> snd p < cols X"
  by (auto simp: spec_active_def)

lemma mat_at_negate:
  assumes "mat_ok X" "0 \<le> row" "row < rows X" "0 \<le> col" "col < cols X"
  shows "mat_at (negate X) row col = - mat_at X row col"
proof -
  have r: "nat row < length X" using assms(2,3) by (simp add: rows_def)
  then have "X ! nat row \<in> set X" by simp
  then have "int (length (X ! nat row)) = cols X" using assms(1) by (simp add: mat_ok_def)
  then have "nat col < length (X ! nat row)" using assms(4,5) by simp
  then show ?thesis using r by (simp add: mat_at_def negate_def)
qed

lemma spec_mean_negate:
  assumes "mat_ok X"
  shows "spec_mean (negate X) msk = - spec_mean X msk"
proof -
  have "(\<Sum>p \<in> spec_active X msk. mat_at (negate X) (fst p) (snd p)) =
        (\<Sum>p \<in> spec_active X msk. - mat_at X (fst p) (snd p))"
    by (rule sum.cong) (auto simp: mat_at_negate [OF assms] dest: spec_active_range)
  then show ?thesis by (simp add: spec_mean_def sum_negf)
qed

lemma spec_D_negate:
  assumes "mat_ok X"
  shows "spec_D (negate X) msk = spec_D X msk"
proof -
  have "(\<Sum>p \<in> spec_active X msk. (mat_at (negate X) (fst p) (snd p) - spec_mean (negate X) msk)\<^sup>2) =
        (\<Sum>p \<in> spec_active X msk. (mat_at X (fst p) (snd p) - spec_mean X msk)\<^sup>2)"
  proof (rule sum.cong)
    fix p assume "p \<in> spec_active X msk"
    then have "mat_at (negate X) (fst p) (snd p) = - mat_at X (fst p) (snd p)"
      by (auto simp: mat_at_negate [OF assms] dest: spec_active_range)
    then show "(mat_at (negate X) (fst p) (snd p) - spec_mean (negate X) msk)\<^sup>2 =
               (mat_at X (fst p) (snd p) - spec_mean X msk)\<^sup>2"
      by (simp add: spec_mean_negate [OF assms] power2_eq_square algebra_simps)
  qed simp
  then show ?thesis by (simp add: spec_D_def)
qed

lemma spec_E_negate:
  assumes "mat_ok X"
  shows "spec_E X (negate X) msk = - (spec_D X msk)\<^sup>2"
proof -
  have "(\<Sum>p \<in> spec_active X msk. (mat_at X (fst p) (snd p) - spec_mean X msk) *
            (mat_at (negate X) (fst p) (snd p) - spec_mean (negate X) msk)) =
        (\<Sum>p \<in> spec_active X msk. - ((mat_at X (fst p) (snd p) - spec_mean X msk)\<^sup>2))"
  proof (rule sum.cong)
    fix p assume "p \<in> spec_active X msk"
    then have "mat_at (negate X) (fst p) (snd p) = - mat_at X (fst p) (snd p)"
      by (auto simp: mat_at_negate [OF assms] dest: spec_active_range)
    then show "(mat_at X (fst p) (snd p) - spec_mean X msk) *
            (mat_at (negate X) (fst p) (snd p) - spec_mean (negate X) msk) =
            - ((mat_at X (fst p) (snd p) - spec_mean X msk)\<^sup>2)"
      by (simp add: spec_mean_negate [OF assms] power2_eq_square algebra_simps)
  qed simp
  then show ?thesis by (simp add: spec_E_def spec_D_sq sum_negf)
qed

section \<open>Rounding to a float\<close>

lemma rne_int [simp]: "rne (of_int n) = n"
  by (simp add: rne_def)

lemma rne_minus: "rne (- t) = - rne t"
proof (cases "t = of_int \<lfloor>t\<rfloor>")
  case True
  then obtain n where "t = of_int n" by metis
  then have "rne t = n" "rne (- t) = - n"
    using rne_int [of n] rne_int [of "- n"] by simp_all
  then show ?thesis by simp
next
  case False
  then have f: "\<lfloor>- t\<rfloor> = - \<lfloor>t\<rfloor> - 1"
    by (simp add: floor_minus ceiling_altdef)
  have d: "0 < t - of_int \<lfloor>t\<rfloor>" "t - of_int \<lfloor>t\<rfloor> < 1"
    using False by linarith+
  show ?thesis
    unfolding rne_def Let_def f using d by (auto simp: algebra_simps)
qed

lemma rne_close: "\<bar>of_int (rne t) - t\<bar> \<le> 1 / 2"
  unfolding rne_def Let_def by (auto simp: abs_le_iff)

lemma round_to_representable:
  assumes "x = of_int m * 2 powr of_int k" "\<bar>m\<bar> < 2 ^ nat p" "0 < p"
    "emin - p + 1 \<le> k" "k + p - 1 \<le> emax"
  shows "round_to p emin emax x = Finite x"
proof (cases "x = 0")
  case True
  then show ?thesis by (simp add: round_to_def)
next
  case False
  then have m0: "m \<noteq> 0" using assms(1) by auto
  define e where "e = max emin \<lfloor>log 2 \<bar>x\<bar>\<rfloor>"
  define ulp :: real where "ulp = 2 powr of_int (e - p + 1)"
  have ax: "\<bar>x\<bar> = of_int \<bar>m\<bar> * 2 powr of_int k"
    by (simp add: assms(1) abs_mult)
  have "of_int \<bar>m\<bar> < (2 :: real) ^ nat p"
    using assms(2) by (metis of_int_less_iff of_int_numeral of_int_power)
  also have "\<dots> = 2 powr of_int p" using assms(3) by (simp add: powr_realpow [symmetric])
  finally have "\<bar>x\<bar> < 2 powr of_int p * 2 powr of_int k"
    unfolding ax by (simp)
  then have lt: "\<bar>x\<bar> < 2 powr of_int (k + p)"
    by (simp add: powr_add [symmetric] add.commute)
  have "log 2 \<bar>x\<bar> < of_int (k + p)"
    using lt False by (simp add: log_less_iff)
  then have "\<lfloor>log 2 \<bar>x\<bar>\<rfloor> < k + p" by (simp add: floor_less_iff)
  then have ek: "e - p + 1 \<le> k" unfolding e_def using assms(4) by simp
  define j where "j = nat (k - (e - p + 1))"
  have kj: "k = (e - p + 1) + int j" using ek by (simp add: j_def)
  have "2 powr of_int k = ulp * 2 ^ j"
    unfolding ulp_def by (subst kj) (simp add: powr_add powr_realpow)
  then have xq: "x / ulp = of_int (m * 2 ^ j)"
    using assms(1) by (simp add: ulp_def)
  have up: "0 < ulp" by (simp add: ulp_def)
  have "x = (x / ulp) * ulp" using up by simp
  then have y: "of_int (rne (x / ulp)) * ulp = x"
    unfolding xq rne_int by simp
  have "\<bar>x\<bar> < 2 powr of_int (emax + 1)"
  proof -
    have "(2::real) powr of_int (k + p) \<le> 2 powr of_int (emax + 1)"
      using assms(5) by simp
    then show ?thesis using lt by linarith
  qed
  then show ?thesis
    using False y unfolding round_to_def Let_def e_def [symmetric] ulp_def [symmetric]
    by (simp)
qed

lemma float32_representable:
  assumes "x = of_int m * 2 powr of_int k" "\<bar>m\<bar> < 2 ^ 24" "- 149 \<le> k" "k \<le> 104"
  shows "float32 x = Finite x"
  unfolding float32_def
  by (rule round_to_representable [OF assms(1)]) (use assms in simp_all)

lemma float32_zero [simp]: "float32 0 = Finite 0"
  by (simp add: float32_def round_to_def)

lemma round_to_overflow:
  assumes "x = 2 powr of_int k" "emax < k" "emin \<le> k" "0 < p"
  shows "round_to p emin emax x = PosInf"
proof -
  have x0: "0 < x" using assms(1) by simp
  have l: "log 2 \<bar>x\<bar> = of_int k" using assms(1) by simp
  have e: "max emin \<lfloor>log 2 \<bar>x\<bar>\<rfloor> = k" unfolding l using assms(3) by simp
  define ulp :: real where "ulp = 2 powr of_int (k - p + 1)"
  have up: "0 < ulp" by (simp add: ulp_def)
  have "k = (k - p + 1) + int (nat (p - 1))" using assms(4) by simp
  then have "2 powr of_int k = ulp * 2 ^ nat (p - 1)"
    unfolding ulp_def by (metis of_int_add of_int_of_nat_eq powr_add powr_realpow zero_less_numeral)
  then have xq: "x / ulp = of_int (2 ^ nat (p - 1))"
    using assms(1) up by simp
  have "x = (x / ulp) * ulp" using up by simp
  then have y: "of_int (rne (x / ulp)) * ulp = x"
    unfolding xq rne_int by simp
  have "(2 :: real) powr of_int (emax + 1) \<le> 2 powr of_int k"
    using assms(2) by simp
  then have "2 powr of_int (emax + 1) \<le> \<bar>x\<bar>" using assms(1) by simp
  then show ?thesis
    using x0 y unfolding round_to_def Let_def e ulp_def [symmetric] by simp
qed




lemma float32_two_70: "float32 (2 ^ 70) = Finite (2 ^ 70)"
  by (rule float32_representable [of _ 1 "70"]) (simp_all)

lemma float32_minus_two_70: "float32 (- (2 ^ 70)) = Finite (- (2 ^ 70))"
  by (rule float32_representable [of _ "- 1" "70"]) (simp_all)

lemma float32_two_140: "float32 (2 ^ 140) = PosInf"
  unfolding float32_def by (rule round_to_overflow [of _ 140]) simp_all

lemma round_to_minus: "round_to p emin emax (- x) = fneg (round_to p emin emax x)"
proof (cases "x = 0")
  case True
  then show ?thesis by (simp add: round_to_def)
next
  case False
  define ulp :: real where "ulp = 2 powr of_int (max emin \<lfloor>log 2 \<bar>x\<bar>\<rfloor> - p + 1)"
  have y: "of_int (rne (- x / ulp)) * ulp = - (of_int (rne (x / ulp)) * ulp)"
    using rne_minus [of "x / ulp"] by simp
  show ?thesis
    using False unfolding round_to_def Let_def abs_minus_cancel ulp_def [symmetric] y
    by (auto simp: not_less)
qed

lemma float32_minus: "float32 (- x) = fneg (float32 x)"
  unfolding float32_def by (rule round_to_minus)

lemma float32_error:
  assumes "1 / 2 ^ 126 \<le> \<bar>x\<bar>" "\<bar>x\<bar> \<le> 2 ^ 127"
  shows "\<exists>y. float32 x = Finite y \<and> \<bar>y - x\<bar> \<le> \<bar>x\<bar> / 2 ^ 24"
proof -
  have x0: "x \<noteq> 0" "0 < \<bar>x\<bar>" using assms(1) by (auto intro: less_le_trans [of 0 "1 / 2 ^ 126"])
  define e where "e = \<lfloor>log 2 \<bar>x\<bar>\<rfloor>"
  have "(2 :: real) powr of_int (- 126) = 1 / 2 ^ 126" by (simp add: powr_minus_divide)
  then have "2 powr of_int (- 126) \<le> \<bar>x\<bar>" using assms(1) by simp
  then have "of_int (- 126) \<le> log 2 \<bar>x\<bar>" using x0(2) by (simp add: le_log_iff)
  then have em: "- 126 \<le> e" unfolding e_def by (simp add: le_floor_iff)
  then have me: "max (- 126) \<lfloor>log 2 \<bar>x\<bar>\<rfloor> = e" by (simp add: e_def)
  have "of_int e \<le> log 2 \<bar>x\<bar>" unfolding e_def by simp
  then have lo: "2 powr of_int e \<le> \<bar>x\<bar>" using x0(2) by (simp add: le_log_iff)
  define ulp :: real where "ulp = 2 powr of_int (e - 24 + 1)"
  have up: "0 < ulp" by (simp add: ulp_def)
  have "2 powr of_int e = 2 powr (of_int (e - 24 + 1) + 23)" by simp
  also have "\<dots> = ulp * 2 ^ 23" unfolding ulp_def powr_add by simp
  finally have ue: "ulp * 8388608 = 2 powr of_int e" by simp
  define y where "y = of_int (rne (x / ulp)) * ulp"
  have "y - x = (of_int (rne (x / ulp)) - x / ulp) * ulp"
    using up by (simp add: y_def algebra_simps)
  then have "\<bar>y - x\<bar> = \<bar>of_int (rne (x / ulp)) - x / ulp\<bar> * ulp"
    using up by (simp add: abs_mult)
  also have "\<dots> \<le> (1 / 2) * ulp"
    using rne_close [of "x / ulp"] up by (intro mult_right_mono) simp_all
  also have "\<dots> = 2 powr of_int e / 2 ^ 24" using ue by simp
  also have "\<dots> \<le> \<bar>x\<bar> / 2 ^ 24" using lo by (simp add: divide_right_mono)
  finally have err: "\<bar>y - x\<bar> \<le> \<bar>x\<bar> / 2 ^ 24" .
  have "\<bar>y\<bar> \<le> \<bar>x\<bar> + \<bar>y - x\<bar>" by simp
  also have "\<dots> \<le> \<bar>x\<bar> + \<bar>x\<bar> / 2 ^ 24" using err by simp
  also have "\<dots> \<le> 2 ^ 127 + 2 ^ 127 / 2 ^ 24" using assms(2) by simp
  also have "\<dots> < (2 :: real) ^ 128" by simp
  finally have "\<bar>y\<bar> < 2 powr of_int (127 + 1)" by simp
  then have "float32 x = Finite y"
    using x0(1) unfolding float32_def round_to_def Let_def me ulp_def [symmetric] y_def [symmetric]
    by simp
  then show ?thesis using err by blast
qed

text \<open>The relative form of the error bound, for a positive argument.\<close>

lemma float32_rel:
  assumes "1 / 2 ^ 126 \<le> x" "x \<le> 2 ^ 127"
  shows "\<exists>a. float32 x = Finite (x * a) \<and> 1 - 1 / 2 ^ 24 \<le> a \<and> a \<le> 1 + 1 / 2 ^ 24"
proof -
  have x0: "0 < x" using assms(1) by (auto intro: less_le_trans [of 0 "1 / 2 ^ 126"])
  obtain y where y: "float32 x = Finite y" "\<bar>y - x\<bar> \<le> \<bar>x\<bar> / 2 ^ 24"
    using float32_error [of x] assms x0 by auto
  define a where "a = y / x"
  have ya: "y = x * a" using x0 by (simp add: a_def)
  have "x * a - x = x * (a - 1)" by (simp add: algebra_simps)
  then have "\<bar>x * a - x\<bar> = x * \<bar>a - 1\<bar>" using x0 by (simp add: abs_mult)
  moreover have "\<bar>x * a - x\<bar> \<le> x / 2 ^ 24" using y(2) x0 by (simp add: ya)
  ultimately have "x * \<bar>a - 1\<bar> \<le> x * (1 / 2 ^ 24)" by simp
  then have "\<bar>a - 1\<bar> \<le> 1 / 2 ^ 24" using x0 by (simp only: mult_le_cancel_left_pos)
  then have "a - 1 \<le> 1 / 2 ^ 24" "- (a - 1) \<le> 1 / 2 ^ 24"
    unfolding abs_le_iff by blast+
  then have "1 - 1 / 2 ^ 24 \<le> a \<and> a \<le> 1 + 1 / 2 ^ 24" by simp
  moreover have "float32 x = Finite (x * a)" using y(1) ya by simp
  ultimately show ?thesis by blast
qed

section \<open>The last three operations of the self correlation\<close>

text \<open>
  The quotient of a float \<open>v\<close> by the rounded square of its rounded square root, as the
  function computes it when \<open>E\<close>, \<open>deviationX\<close> and \<open>deviationY\<close> are all \<open>v\<close>: each of the three
  operations has a relative error of at most \<open>1 / 2 ^ 24\<close>, as long as no result leaves the range
  of the normal floats.
\<close>

lemma self_quotient_float32:
  assumes "1 / 2 ^ 124 \<le> v" "v \<le> 2 ^ 125"
  shows "\<exists>y. fdivide float32 (Finite v) (fmul float32 (fsqrt float32 (Finite v)) (fsqrt float32 (Finite v)))
               = Finite y \<and> \<bar>y - 1\<bar> \<le> 1 / 2 ^ 21"
proof -
  define u :: real where "u = 1 / 2 ^ 24"
  have u: "u = 1 / 16777216" by (simp add: u_def)
  have v0: "0 < v" using assms(1) by (auto intro: less_le_trans [of 0 "1 / 2 ^ 124"])
  define s where "s = sqrt v"
  have s0: "0 < s" using v0 by (simp add: s_def)
  have ss: "s * s = v" using v0 by (simp add: s_def)
  have slo: "1 / 2 ^ 126 \<le> s"
  proof (cases "1 \<le> v")
    case True
    then have "1 \<le> s" by (simp add: s_def)
    then show ?thesis by (rule order_trans [rotated]) simp
  next
    case False
    then have "s \<le> 1" by (simp add: s_def)
    then have "s * s \<le> s * 1" using s0 by (intro mult_left_mono) simp_all
    then have "v \<le> s" using ss by simp
    moreover have "(1 :: real) / 2 ^ 126 \<le> 1 / 2 ^ 124" by simp
    ultimately show ?thesis using assms(1) by linarith
  qed
  have shi: "s \<le> 2 ^ 127"
  proof (cases "1 \<le> v")
    case True
    then have "1 \<le> s" by (simp add: s_def)
    then have "s * 1 \<le> s * s" using s0 by (intro mult_left_mono) simp_all
    then have "s \<le> v" using ss by simp
    moreover have "(2 :: real) ^ 125 \<le> 2 ^ 127" by simp
    ultimately show ?thesis using assms(2) by linarith
  next
    case False
    then have "s \<le> 1" by (simp add: s_def)
    then show ?thesis by (rule order_trans) simp
  qed
  obtain a where a: "float32 s = Finite (s * a)" "1 - u \<le> a" "a \<le> 1 + u"
    using float32_rel [OF slo shi] unfolding u_def by blast
  have a0: "0 < a" "1 / 2 \<le> a" "a \<le> 2" using a(2,3) by (simp_all add: u)
  have un: "0 < 1 - u" "0 < u" by (simp_all add: u)
  have aa: "(1 - u) * (1 - u) \<le> a * a" "a * a \<le> (1 + u) * (1 + u)"
  proof -
    show "(1 - u) * (1 - u) \<le> a * a"
      by (rule mult_mono) (use a(2) a0(1) un(1) in linarith)+
    show "a * a \<le> (1 + u) * (1 + u)"
      by (rule mult_mono) (use a(3) a0(1) un(2) in linarith)+
  qed
  have aa4: "1 / 4 \<le> a * a" "a * a \<le> 4"
    using aa by (simp_all add: u)
  define x2 where "x2 = (s * a) * (s * a)"
  have x2: "x2 = v * (a * a)" by (simp add: x2_def ss [symmetric] algebra_simps)
  have "v * (1 / 4) \<le> v * (a * a)" "v * (a * a) \<le> v * 4"
    using aa4 v0 by (auto intro!: mult_left_mono)
  then have "v * (1 / 4) \<le> x2" "x2 \<le> v * 4"
    unfolding x2 by blast+
  then have x2b: "1 / 2 ^ 126 \<le> x2" "x2 \<le> 2 ^ 127"
    using assms by simp_all
  have x20: "0 < x2" unfolding x2 using v0 a0 by simp
  obtain b where b: "float32 x2 = Finite (x2 * b)" "1 - u \<le> b" "b \<le> 1 + u"
    using float32_rel [OF x2b] unfolding u_def by blast
  have b0: "0 < b" "1 / 2 \<le> b" "b \<le> 2" using b(2,3) by (simp_all add: u)
  define d where "d = a * a * b"
  have d0: "0 < d" using a0 b0 by (simp add: d_def)
  have a2: "0 \<le> a * a" using a0(1) by simp
  have dlo: "(1 - u) * (1 - u) * (1 - u) \<le> d"
    unfolding d_def by (rule mult_mono) (use aa(1) b(2) a2 un(1) in linarith)+
  have dhi: "d \<le> (1 + u) * (1 + u) * (1 + u)"
    unfolding d_def
  proof (rule mult_mono)
    show "a * a \<le> (1 + u) * (1 + u)" by (rule aa(2))
    show "b \<le> 1 + u" by (rule b(3))
    show "0 \<le> (1 + u) * (1 + u)" using un(2) by simp
    show "0 \<le> b" using b0(1) by simp
  qed
  have d8: "1 / 8 \<le> d" "d \<le> 8"
    using dlo dhi by (simp_all add: u)
  have pd: "x2 * b = v * d" by (simp add: x2 d_def algebra_simps)
  define t where "t = v / (x2 * b)"
  have t: "t = 1 / d" unfolding t_def pd using v0 by simp
  have tb: "1 / 2 ^ 126 \<le> t" "t \<le> 2 ^ 127"
  proof -
    have "1 / 8 \<le> 1 / d" using d8(2) d0 by (simp add: field_simps)
    then show "1 / 2 ^ 126 \<le> t" unfolding t by simp
    have "1 / d \<le> 8" using d8(1) d0 by (simp add: field_simps)
    then show "t \<le> 2 ^ 127" unfolding t by simp
  qed
  obtain c where c: "float32 t = Finite (t * c)" "1 - u \<le> c" "c \<le> 1 + u"
    using float32_rel [OF tb] unfolding u_def by blast
  have c0: "0 < c" using c(2) by (simp add: u)
  have y: "t * c = c / d" by (simp add: t)
  have "c / d \<le> (1 + u) / ((1 - u) * (1 - u) * (1 - u))"
    using c(3) c0 dlo by (intro frac_le) (simp_all add: u)
  also have "\<dots> \<le> 1 + 1 / 2 ^ 21" by (simp add: u)
  finally have hi: "c / d \<le> 1 + 1 / 2 ^ 21" .
  have "1 - 1 / 2 ^ 21 \<le> (1 - u) / ((1 + u) * (1 + u) * (1 + u))" by (simp add: u)
  also have "\<dots> \<le> c / d"
    using c(2) dhi d0 by (intro frac_le) (simp_all add: u)
  finally have lo: "1 - 1 / 2 ^ 21 \<le> c / d" .
  have e: "\<bar>t * c - 1\<bar> \<le> 1 / 2 ^ 21"
    unfolding y abs_le_iff using hi lo by simp
  have nz: "x2 * b \<noteq> 0" using x20 b0 by simp
  have "fdivide float32 (Finite v) (fmul float32 (fsqrt float32 (Finite v)) (fsqrt float32 (Finite v)))
          = Finite (t * c)"
    using v0 nz
    by (simp add: s_def [symmetric] a(1) x2_def [symmetric] b(1) t_def [symmetric] c(1) not_less less_imp_le)
  then show ?thesis using e by blast
qed

section \<open>The correlation in exact arithmetic\<close>

lemma cc_body_float_exact:
  "cc_body_float Finite X Y region (Finite mX) (Finite mY) row (Finite E, Finite dx, Finite dy) col =
     (case cc_body X Y region mX mY row (E, dx, dy) col of
        (E', dx', dy') \<Rightarrow> (Finite E', Finite dx', Finite dy'))"
  by (simp add: cc_body_float_def cc_body_def Let_def fsub_def)

lemma foldl_cc_body_exact:
  "foldl (cc_body_float Finite X Y region (Finite mX) (Finite mY) row) (Finite E, Finite dx, Finite dy) cs =
     (case foldl (cc_body X Y region mX mY row) (E, dx, dy) cs of
        (E', dx', dy') \<Rightarrow> (Finite E', Finite dx', Finite dy'))"
proof (induction cs arbitrary: E dx dy)
  case Nil
  then show ?case by simp
next
  case (Cons col cs)
  obtain E1 dx1 dy1 where f: "cc_body X Y region mX mY row (E, dx, dy) col = (E1, dx1, dy1)"
    by (metis prod.exhaust)
  show ?case
    by (simp add: cc_body_float_exact f Cons.IH)
qed

lemma foldl_cc_rows_exact:
  "foldl (\<lambda>acc row. foldl (cc_body_float Finite X Y region (Finite mX) (Finite mY) row) acc cs)
      (Finite E, Finite dx, Finite dy) rs =
     (case foldl (\<lambda>acc row. foldl (cc_body X Y region mX mY row) acc cs) (E, dx, dy) rs of
        (E', dx', dy') \<Rightarrow> (Finite E', Finite dx', Finite dy'))"
proof (induction rs arbitrary: E dx dy)
  case Nil
  then show ?case by simp
next
  case (Cons row rs)
  obtain E1 dx1 dy1 where f: "foldl (cc_body X Y region mX mY row) (E, dx, dy) cs = (E1, dx1, dy1)"
    by (metis prod.exhaust)
  show ?case
    by (simp add: foldl_cc_body_exact f Cons.IH)
qed

lemma cc_sums_float_exact:
  "cc_sums_float Finite X Y region (Finite mX) (Finite mY) =
     (case cc_sums X Y region mX mY of (E, dx, dy) \<Rightarrow> (Finite E, Finite dx, Finite dy))"
  unfolding cc_sums_float_def cc_sums_def by (rule foldl_cc_rows_exact)

lemma crossCorrelation_float_exact:
  "crossCorrelation_float Finite mean_cv X Y msk = crossCorrelation X Y msk"
proof -
  let ?reg = "if empty_mat msk then ones (rows X) (cols X) else msk"
  obtain E dx dy where s: "cc_sums X Y ?reg (mean_cv X msk) (mean_cv Y msk) = (E, dx, dy)"
    by (metis prod.exhaust)
  have "dx = (\<Sum>p \<in> spec_active X msk. (mat_at X (fst p) (snd p) - mean_cv X msk)\<^sup>2)"
    "dy = (\<Sum>p \<in> spec_active X msk. (mat_at Y (fst p) (snd p) - mean_cv Y msk)\<^sup>2)"
    using s unfolding cc_sums_spec by simp_all
  then have nn: "0 \<le> dx" "0 \<le> dy" by (simp_all add: sum_nonneg)
  have q: "fdivide Finite (Finite E) (Finite (sqrt dx * sqrt dy)) = fdiv E (sqrt dx * sqrt dy)"
    by (simp add: fdiv_def)
  show ?thesis
    unfolding crossCorrelation_float_def crossCorrelation_def Let_def cc_sums_float_exact s
    using nn by (simp add: fdiv_def)
qed

section \<open>The correlation of a grid with itself and with its negation\<close>

text \<open>
  In the call \<open>crossCorrelation(X, X, mask)\<close> the three accumulators go through the same
  operations and hold the same float.  In the call with \<open>-X\<close> in the place of \<open>Y\<close>, for a
  rounding that commutes with the negation and a mean that is negated with the grid, \<open>E\<close> is
  the negation of that float.
\<close>

lemma fneg_fneg [simp]: "fneg (fneg a) = a"
  by (cases a) simp_all

lemma fadd_fneg:
  assumes "\<forall>x. rnd (- x) = fneg (rnd x)"
  shows "fadd rnd (fneg a) (fneg b) = fneg (fadd rnd a b)"
proof -
  have "rnd (- x - y) = fneg (rnd (x + y))" for x y
    using assms [rule_format, of "x + y"] by simp
  then show ?thesis by (cases a; cases b) simp_all
qed

lemma fsub_fneg:
  assumes "\<forall>x. rnd (- x) = fneg (rnd x)"
  shows "fsub rnd (Finite (- x)) (fneg m) = fneg (fsub rnd (Finite x) m)"
  using fadd_fneg [OF assms, of "Finite x" "fneg m"] by (simp add: fsub_def)

lemma fmul_fneg_right:
  assumes "\<forall>x. rnd (- x) = fneg (rnd x)"
  shows "fmul rnd a (fneg b) = fneg (fmul rnd a b)"
proof -
  have "rnd (- (x * y)) = fneg (rnd (x * y))" for x y
    by (rule assms [rule_format])
  then show ?thesis
    by (cases a; cases b) (simp_all add: sgn_real_def)
qed

lemma fmul_fneg_fneg:
  "fmul rnd (fneg a) (fneg b) = fmul rnd a b"
  by (cases a; cases b) (simp_all add: sgn_real_def)

lemma fdivide_fneg_left:
  assumes "\<forall>x. rnd (- x) = fneg (rnd x)"
  shows "fdivide rnd (fneg a) b = fneg (fdivide rnd a b)"
proof -
  have "rnd (- (x / y)) = fneg (rnd (x / y))" for x y
    by (rule assms [rule_format])
  then show ?thesis
    by (cases a; cases b) (auto simp: fdiv_def)
qed

lemma cc_body_float_self:
  "cc_body_float rnd X X region m m row (D, D, D) col =
     (fst (snd (cc_body_float rnd X X region m m row (D, D, D) col)),
      fst (snd (cc_body_float rnd X X region m m row (D, D, D) col)),
      fst (snd (cc_body_float rnd X X region m m row (D, D, D) col)))"
  by (simp add: cc_body_float_def Let_def)

lemma cc_body_float_negate:
  assumes "\<forall>x. rnd (- x) = fneg (rnd x)" "mat_ok X" "0 \<le> row" "row < rows X" "0 \<le> col" "col < cols X"
  shows "cc_body_float rnd X (negate X) region m (fneg m) row (fneg D, D, D) col =
     (fneg (fst (snd (cc_body_float rnd X X region m m row (D, D, D) col))),
      fst (snd (cc_body_float rnd X X region m m row (D, D, D) col)),
      fst (snd (cc_body_float rnd X X region m m row (D, D, D) col)))"
  by (simp add: cc_body_float_def Let_def mat_at_negate [OF assms(2-6)] fsub_fneg [OF assms(1)]
      fmul_fneg_right [OF assms(1)] fmul_fneg_fneg fadd_fneg [OF assms(1)])

lemma cc_sums_float_negate:
  assumes "\<forall>x. rnd (- x) = fneg (rnd x)" "mat_ok X"
  shows "\<exists>D. cc_sums_float rnd X X region m m = (D, D, D) \<and>
             cc_sums_float rnd X (negate X) region m (fneg m) = (fneg D, D, D)"
proof -
  let ?R = "\<lambda>s t. \<exists>D. s = (D, D, D) \<and> t = (fneg D, D, D)"
  have inner: "?R (foldl (cc_body_float rnd X X region m m row) s [0..cols X - 1])
                  (foldl (cc_body_float rnd X (negate X) region m (fneg m) row) t [0..cols X - 1])"
    if "row \<in> set [0..rows X - 1]" "?R s t" for row s t
  proof (rule foldl_related [where R = ?R])
    fix s t col
    assume c: "col \<in> set [0..cols X - 1]" and "?R s t"
    then obtain D where D: "s = (D, D, D)" "t = (fneg D, D, D)" by blast
    have rg: "0 \<le> row" "row < rows X" "0 \<le> col" "col < cols X" using that(1) c by simp_all
    show "?R (cc_body_float rnd X X region m m row s col)
             (cc_body_float rnd X (negate X) region m (fneg m) row t col)"
      unfolding D
      by (subst cc_body_float_self, subst cc_body_float_negate [OF assms rg]) blast
  qed (rule that(2))
  have "?R (cc_sums_float rnd X X region m m) (cc_sums_float rnd X (negate X) region m (fneg m))"
    unfolding cc_sums_float_def cols_negate rows_negate
    by (rule foldl_related [where R = ?R]) (use inner in simp_all)
  then show ?thesis by blast
qed

lemma crossCorrelation_float_self:
  assumes "empty_mat msk \<or> (rows msk = rows X \<and> cols msk = cols X)"
  shows "crossCorrelation_float rnd cv_mean X X msk =
           Inr (fdivide rnd (deviation_float rnd cv_mean X msk)
                  (fmul rnd (fsqrt rnd (deviation_float rnd cv_mean X msk))
                            (fsqrt rnd (deviation_float rnd cv_mean X msk))))"
proof -
  let ?reg = "if empty_mat msk then ones (rows X) (cols X) else msk"
  let ?m = "rnd (cv_mean X msk)"
  have "?m = fneg (fneg ?m)" by simp
  have "\<exists>D. cc_sums_float rnd X X ?reg ?m ?m = (D, D, D)"
    unfolding cc_sums_float_def
    by (rule foldl_invariant [where P = "\<lambda>s. \<exists>D. s = (D, D, D)"],
        rule foldl_invariant [where P = "\<lambda>s. \<exists>D. s = (D, D, D)"])
       (auto simp: cc_body_float_def Let_def)
  then obtain D where D: "cc_sums_float rnd X X ?reg ?m ?m = (D, D, D)" by blast
  show ?thesis
    using assms by (auto simp: crossCorrelation_float_def deviation_float_def Let_def D)
qed

lemma crossCorrelation_float_negate:
  assumes "\<forall>x. rnd (- x) = fneg (rnd x)" "mat_ok X"
    "empty_mat msk \<or> (rows msk = rows X \<and> cols msk = cols X)"
    "cv_mean (negate X) msk = - cv_mean X msk"
  shows "crossCorrelation_float rnd cv_mean X (negate X) msk =
           Inr (fneg (fdivide rnd (deviation_float rnd cv_mean X msk)
                  (fmul rnd (fsqrt rnd (deviation_float rnd cv_mean X msk))
                            (fsqrt rnd (deviation_float rnd cv_mean X msk)))))"
proof -
  let ?reg = "if empty_mat msk then ones (rows X) (cols X) else msk"
  let ?m = "rnd (cv_mean X msk)"
  have m: "rnd (cv_mean (negate X) msk) = fneg ?m" by (simp add: assms(4) assms(1) [rule_format])
  obtain D where D: "cc_sums_float rnd X X ?reg ?m ?m = (D, D, D)"
    "cc_sums_float rnd X (negate X) ?reg ?m (fneg ?m) = (fneg D, D, D)"
    using cc_sums_float_negate [OF assms(1,2)] by blast
  show ?thesis
    using assms(3)
    by (auto simp: crossCorrelation_float_def deviation_float_def Let_def m D
        fdivide_fneg_left [OF assms(1)])
qed

section \<open>Grids of one row and two columns\<close>

lemma upto_0_0: "[0..0::int] = [0]" by (simp add: upto.simps)
lemma upto_0_1: "[0..1::int] = [0, 1]" by (simp add: upto.simps)

lemma row2_dims: "rows [[a, b]] = 1" "cols [[a, b]] = 2" "empty_mat ([] :: 8 word mat)"
  by (simp_all add: rows_def cols_def empty_mat_def)

lemma row2_at: "mat_at [[a, b]] 0 0 = a" "mat_at [[a, b]] 0 1 = b"
  by (simp_all add: mat_at_def)

lemma ones_1_2: "ones 1 2 = [[1, 1]]"
  by (simp add: ones_def tabulate_def upto_0_0 upto_0_1)

lemma mean_row2: "mean_cv [[a, b]] [] = (a + b) / 2"
  by (simp add: mean_cv_def row2_dims upto_0_0 upto_0_1 row2_at Let_def)

lemma cc_sums_float_row2:
  "cc_sums_float rnd [[a, b]] [[c, d]] [[1, 1]] mX mY =
     cc_body_float rnd [[a, b]] [[c, d]] [[1, 1]] mX mY 0
       (cc_body_float rnd [[a, b]] [[c, d]] [[1, 1]] mX mY 0 (Finite 0, Finite 0, Finite 0) 0) 1"
  by (simp add: cc_sums_float_def row2_dims upto_0_0 upto_0_1)

lemma crossCorrelation_float_row2:
  "crossCorrelation_float rnd cv_mean [[a, b]] [[c, d]] [] =
     (case cc_body_float rnd [[a, b]] [[c, d]] [[1, 1]] (rnd (cv_mean [[a, b]] [])) (rnd (cv_mean [[c, d]] [])) 0
       (cc_body_float rnd [[a, b]] [[c, d]] [[1, 1]] (rnd (cv_mean [[a, b]] [])) (rnd (cv_mean [[c, d]] [])) 0 (Finite 0, Finite 0, Finite 0) 0) 1 of
        (E, deviationX, deviationY) \<Rightarrow>
               Inr (fdivide rnd E (fmul rnd (fsqrt rnd deviationX) (fsqrt rnd deviationY))))"
  by (simp add: crossCorrelation_float_def row2_dims ones_1_2 cc_sums_float_row2 Let_def)




lemma float_score_overflow:
  "crossCorrelation_float float32 mean_cv [[2 ^ 70, - (2 ^ 70)]] [[2 ^ 70, - (2 ^ 70)]] [] = Inr NaN"
proof -
  have a: "float32 1180591620717411303424 = Finite 1180591620717411303424"
    using float32_two_70 by simp
  have b: "float32 (- 1180591620717411303424) = Finite (- 1180591620717411303424)"
    using float32_minus_two_70 by simp
  have c: "float32 1393796574908163946345982392040522594123776 = PosInf"
    using float32_two_140 by simp
  show ?thesis
    by (simp add: crossCorrelation_float_row2 mean_row2 cc_body_float_def row2_at
      Let_def fsub_def a b c)
qed

lemma float32_one: "float32 1 = Finite 1"
  by (rule float32_representable [of _ 1 0]) simp_all

lemma float32_minus_one: "float32 (- 1) = Finite (- 1)"
  by (rule float32_representable [of _ "- 1" 0]) simp_all

lemma float32_two: "float32 2 = Finite 2"
  by (rule float32_representable [of _ 2 0]) simp_all

lemma deviation_1_3: "deviation_float float32 mean_cv [[1, 3]] [] = Finite 2"
  by (simp add: deviation_float_def row2_dims ones_1_2 cc_sums_float_row2 mean_row2 float32_two
      cc_body_float_def row2_at Let_def fsub_def float32_one float32_minus_one)

section \<open>The claims on the correlation\<close>




text \<open>
  Claim C7, as the code has it.  For a grid \<open>X\<close> whose active samples have a nonzero
  deviation, the score of \<open>X\<close> with itself is 1 and the score of \<open>X\<close> with its negation is
  \<open>-1\<close>, in exact arithmetic.  In float arithmetic, the score of \<open>X\<close> with itself is within
  \<open>1 / 2 ^ 21\<close> of 1, and the score of \<open>X\<close> with its negation is the negation of that score,
  when the sum of squares that the loops accumulate in \<open>deviationX\<close> is a float between
  \<open>1 / 2 ^ 124\<close> and \<open>2 ^ 125\<close>, whatever mean the library returns for \<open>X\<close>, provided it returns
  the negated mean for the negated grid.  The range leaves room for the rounding of the
  square root and of the product of the two roots inside the normal floats; when the squares
  or their sum overflow or underflow, the score need not be near 1 or \<open>-1\<close>.
\<close>

theorem crossCorrelation_self:
  assumes "has_size X r c" "empty_mat msk \<or> has_size msk r c"
  shows "(spec_D X msk \<noteq> 0 \<longrightarrow>
            crossCorrelation_float Finite mean_cv X X msk = Inr (Finite 1) \<and>
            crossCorrelation_float Finite mean_cv X (negate X) msk = Inr (Finite (- 1))) \<and>
         (cv_mean (negate X) msk = - cv_mean X msk \<and>
          deviation_float float32 cv_mean X msk = Finite v \<and> 1 / 2 ^ 124 \<le> v \<and> v \<le> 2 ^ 125 \<longrightarrow>
            (\<exists>y. crossCorrelation_float float32 cv_mean X X msk = Inr (Finite y) \<and>
                  crossCorrelation_float float32 cv_mean X (negate X) msk = Inr (Finite (- y)) \<and>
                  \<bar>y - 1\<bar> \<le> 1 / 2 ^ 21))"
proof (intro conjI impI)
  have ok: "mat_ok X" using assms(1) by (simp add: has_size_def)
  have m: "empty_mat msk \<or> (rows msk = rows X \<and> cols msk = cols X)"
    using assms(1,2) by (auto simp: has_size_def)
  {
    assume d: "spec_D X msk \<noteq> 0"
    have "crossCorrelation X X msk = Inr (spec_score X X msk)"
      using m by (intro crossCorrelation_spec) auto
    moreover have "spec_score X X msk = Finite 1"
      using d by (simp add: spec_score_def spec_E_self fdiv_def power2_eq_square)
    ultimately show "crossCorrelation_float Finite mean_cv X X msk = Inr (Finite 1)"
      by (simp add: crossCorrelation_float_exact)
    have "crossCorrelation X (negate X) msk = Inr (spec_score X (negate X) msk)"
      using m by (intro crossCorrelation_spec) auto
    moreover have "spec_score X (negate X) msk = Finite (- 1)"
      using d
      by (simp add: spec_score_def spec_E_negate [OF ok] spec_D_negate [OF ok] fdiv_def power2_eq_square)
    ultimately show "crossCorrelation_float Finite mean_cv X (negate X) msk = Inr (Finite (- 1))"
      by (simp add: crossCorrelation_float_exact)
  }
  assume a: "cv_mean (negate X) msk = - cv_mean X msk \<and>
          deviation_float float32 cv_mean X msk = Finite v \<and> 1 / 2 ^ 124 \<le> v \<and> v \<le> 2 ^ 125"
  then obtain y where y: "fdivide float32 (Finite v)
        (fmul float32 (fsqrt float32 (Finite v)) (fsqrt float32 (Finite v))) = Finite y"
      "\<bar>y - 1\<bar> \<le> 1 / 2 ^ 21"
    using self_quotient_float32 [of v] by blast
  have sym: "\<forall>x. float32 (- x) = fneg (float32 x)" by (simp add: float32_minus)
  have "crossCorrelation_float float32 cv_mean X X msk = Inr (Finite y)"
    using crossCorrelation_float_self [OF m, of float32 cv_mean] a y(1) by simp
  moreover have "crossCorrelation_float float32 cv_mean X (negate X) msk = Inr (Finite (- y))"
    using crossCorrelation_float_negate [OF sym ok m, of cv_mean] a y(1) by simp
  ultimately show "\<exists>y. crossCorrelation_float float32 cv_mean X X msk = Inr (Finite y) \<and>
                  crossCorrelation_float float32 cv_mean X (negate X) msk = Inr (Finite (- y)) \<and>
                  \<bar>y - 1\<bar> \<le> 1 / 2 ^ 21"
    using y(2) by blast
qed

theorem crossCorrelation_self_witness:
  "has_size [[1, 3 :: real]] 1 2 \<and>
   (empty_mat ([] :: 8 word mat) \<or> has_size ([] :: 8 word mat) 1 2) \<and>
   spec_D [[1, 3]] [] \<noteq> 0 \<and>
   crossCorrelation_float Finite mean_cv [[1, 3]] [[1, 3]] [] = Inr (Finite 1) \<and>
   crossCorrelation_float Finite mean_cv [[1, 3]] (negate [[1, 3]]) [] = Inr (Finite (- 1)) \<and>
   mean_cv (negate [[1, 3]]) [] = - mean_cv [[1, 3]] [] \<and>
   deviation_float float32 mean_cv [[1, 3]] [] = Finite 2 \<and>
   (1 :: real) / 2 ^ 124 \<le> 2 \<and> (2 :: real) \<le> 2 ^ 125 \<and>
   (\<exists>y. crossCorrelation_float float32 mean_cv [[1, 3]] [[1, 3]] [] = Inr (Finite y) \<and>
         crossCorrelation_float float32 mean_cv [[1, 3]] (negate [[1, 3]]) [] = Inr (Finite (- y)) \<and>
         \<bar>y - 1\<bar> \<le> 1 / 2 ^ 21)"
proof -
  have x: "has_size [[1, 3 :: real]] 1 2"
    and m: "empty_mat ([] :: 8 word mat) \<or> has_size ([] :: 8 word mat) 1 2"
    by (simp_all add: has_size_def rows_def cols_def mat_ok_def empty_mat_def)
  have "(0, 0) \<in> spec_active [[1, 3]] []" "(0, 1) \<in> spec_active [[1, 3]] []"
    by (simp_all add: spec_active_def rows_def cols_def empty_mat_def)
  then have d: "spec_D [[1, 3]] [] \<noteq> 0"
    by (rule spec_D_distinct) (simp add: mat_at_def)
  have n: "mean_cv (negate [[1, 3]]) [] = - mean_cv [[1, 3]] []"
    by (simp add: negate_def mean_row2)
  have b: "(1 :: real) / 2 ^ 124 \<le> 2" "(2 :: real) \<le> 2 ^ 125" by simp_all
  note t = crossCorrelation_self [OF x m, of mean_cv 2]
  have e: "crossCorrelation_float Finite mean_cv [[1, 3]] [[1, 3]] [] = Inr (Finite 1) \<and>
      crossCorrelation_float Finite mean_cv [[1, 3]] (negate [[1, 3]]) [] = Inr (Finite (- 1))"
    using t d by blast
  have f: "\<exists>y. crossCorrelation_float float32 mean_cv [[1, 3]] [[1, 3]] [] = Inr (Finite y) \<and>
         crossCorrelation_float float32 mean_cv [[1, 3]] (negate [[1, 3]]) [] = Inr (Finite (- y)) \<and>
         \<bar>y - 1\<bar> \<le> 1 / 2 ^ 21"
    using t n deviation_1_3 b by blast
  show ?thesis
    using x m d conjunct1 [OF e] conjunct2 [OF e] n deviation_1_3 b f by (intro conjI)
qed

text \<open>
  In float arithmetic, for \<open>X = [2 ^ 70, - (2 ^ 70)]\<close>, whose deviation is not zero: the
  squares \<open>2 ^ 140\<close> of the deviations from the mean 0 overflow, \<open>E\<close> and both sums are
  infinite, and the quotient of two infinities is NaN.
\<close>

theorem crossCorrelation_self_counterexample:
  "spec_D [[2 ^ 70, - (2 ^ 70)]] [] \<noteq> 0 \<and>
   crossCorrelation_float float32 mean_cv [[2 ^ 70, - (2 ^ 70)]] [[2 ^ 70, - (2 ^ 70)]] [] = Inr NaN"
proof -
  have "(0, 0) \<in> spec_active [[2 ^ 70, - (2 ^ 70)]] []" "(0, 1) \<in> spec_active [[2 ^ 70, - (2 ^ 70)]] []"
    by (simp_all add: spec_active_def rows_def cols_def empty_mat_def)
  then have d: "spec_D [[2 ^ 70, - (2 ^ 70)]] [] \<noteq> 0"
    by (rule spec_D_distinct) (simp add: mat_at_def)
  then show ?thesis using float_score_overflow by simp
qed

section \<open>Degenerate inputs\<close>

lemma crossCorrelation_degenerate:
  assumes "rows X = rows Y" "cols X = cols Y" "empty_mat msk \<or> (rows msk = rows X \<and> cols msk = cols X)"
    "spec_D X msk = 0 \<or> spec_D Y msk = 0"
  shows "crossCorrelation X Y msk = Inr NaN"
proof -
  have a: "spec_active Y msk = spec_active X msk"
    using assms(1,2) by (simp add: spec_active_def)
  have "spec_E X Y msk = 0" using assms(4) a by (rule spec_E_zero)
  moreover have "spec_D X msk * spec_D Y msk = 0" using assms(4) by auto
  ultimately have "spec_score X Y msk = NaN" by (simp add: spec_score_def fdiv_def)
  then show ?thesis using crossCorrelation_spec [OF assms(1-3)] by simp
qed

lemma normalizeOne_flat:
  assumes "fst (minMaxLoc g) = snd (minMaxLoc g)"
  shows "normalizeOne N V (Chan1 g) =
           Inr (Chan1 (N g (fdiv (fst (minMaxLoc g)) \<bar>fst (minMaxLoc g)\<bar>)
                          (fdiv (fst (minMaxLoc g)) \<bar>fst (minMaxLoc g)\<bar>)))"
  using assms by (cases "minMaxLoc g") (simp add: normalizeOne_def Let_def)

lemma fdiv_abs: "fdiv v \<bar>v\<bar> = (if v = 0 then NaN else Finite (sgn v))"
  by (simp add: fdiv_def sgn_real_def)

text \<open>
  Claim C8, as the code has it.  Neither operation reports a degenerate input.  When the
  active samples of \<open>X\<close> or of \<open>Y\<close> have zero deviation, \<open>crossCorrelation\<close> divides by zero and
  returns the result of that division, which is NaN since \<open>E\<close> is zero as well.  When the
  greatest and the least element of a one-channel grid are equal, \<open>normalizeOne\<close> divides
  both by \<open>scale\<close>, their common absolute value, unchecked, and hands the quotients (the sign
  of the value, or NaN when the value is zero) to the library's normalisation.
\<close>

theorem degenerate_not_reported:
  "(has_size X r c \<and> has_size Y r c \<and> (empty_mat msk \<or> has_size msk r c) \<and>
      (spec_D X msk = 0 \<or> spec_D Y msk = 0)
      \<longrightarrow> crossCorrelation X Y msk = Inr NaN) \<and>
   (fst (minMaxLoc g) = snd (minMaxLoc g)
      \<longrightarrow> normalizeOne N V (Chan1 g) =
            Inr (Chan1 (N g (if fst (minMaxLoc g) = 0 then NaN else Finite (sgn (fst (minMaxLoc g))))
                           (if fst (minMaxLoc g) = 0 then NaN else Finite (sgn (fst (minMaxLoc g)))))))"
proof (intro conjI impI)
  assume "has_size X r c \<and> has_size Y r c \<and> (empty_mat msk \<or> has_size msk r c) \<and>
      (spec_D X msk = 0 \<or> spec_D Y msk = 0)"
  then show "crossCorrelation X Y msk = Inr NaN"
    by (intro crossCorrelation_degenerate) (auto simp: has_size_def)
next
  assume "fst (minMaxLoc g) = snd (minMaxLoc g)"
  then show "normalizeOne N V (Chan1 g) =
            Inr (Chan1 (N g (if fst (minMaxLoc g) = 0 then NaN else Finite (sgn (fst (minMaxLoc g))))
                           (if fst (minMaxLoc g) = 0 then NaN else Finite (sgn (fst (minMaxLoc g))))))"
    by (simp only: normalizeOne_flat fdiv_abs)
qed

lemma spec_D_row11: "spec_D [[1, 1]] [] = 0"
  by (rule spec_D_const [where v = 1])
    (auto simp: spec_active_def rows_def cols_def mat_at_def nth_Cons split: nat.splits)

theorem degenerate_not_reported_witness:
  "(has_size [[1, 1 :: real]] 1 2 \<and> has_size [[2, 5 :: real]] 1 2 \<and>
      (empty_mat ([] :: 8 word mat) \<or> has_size ([] :: 8 word mat) 1 2) \<and>
      (spec_D [[1, 1]] [] = 0 \<or> spec_D [[2, 5]] [] = 0)) \<and>
   crossCorrelation [[1, 1]] [[2, 5]] [] = Inr NaN \<and>
   fst (minMaxLoc [[3, 3]]) = snd (minMaxLoc [[3, 3]]) \<and>
   normalizeOne (\<lambda>g a b. if a = Finite 1 \<and> b = Finite 1 then g else []) (\<lambda>gs. gs) (Chan1 [[3, 3]]) =
     Inr (Chan1 [[3, 3]])"
proof -
  have h: "has_size [[1, 1 :: real]] 1 2 \<and> has_size [[2, 5 :: real]] 1 2 \<and>
      (empty_mat ([] :: 8 word mat) \<or> has_size ([] :: 8 word mat) 1 2) \<and>
      (spec_D [[1, 1]] [] = 0 \<or> spec_D [[2, 5]] [] = 0)"
    by (simp add: has_size_def rows_def cols_def mat_ok_def empty_mat_def spec_D_row11)
  have g: "fst (minMaxLoc [[3, 3]]) = snd (minMaxLoc [[3, 3]])" "fst (minMaxLoc [[3, 3]]) = 3"
    by (simp_all add: minMaxLoc_def)
  show ?thesis
    using degenerate_not_reported [of "[[1, 1]]" 1 2 "[[2, 5]]" "[]" "[[3, 3]]"
        "\<lambda>g a b. if a = Finite 1 \<and> b = Finite 1 then g else []" "\<lambda>gs. gs"] h g
    by simp
qed

theorem degenerate_counterexample:
  "spec_D [[1, 1]] [] = 0 \<and>
   crossCorrelation [[1, 1]] [[1, 1]] [] = Inr NaN \<and>
   \<not> isl (crossCorrelation [[1, 1]] [[1, 1]] [])"
proof -
  have "crossCorrelation [[1, 1]] [[1, 1]] [] = Inr NaN"
    by (rule crossCorrelation_degenerate) (simp_all add: empty_mat_def rows_def spec_D_row11)
  then show ?thesis by (simp add: spec_D_row11)
qed

text \<open>
  The degenerate case in float arithmetic.  When the active samples of \<open>X\<close> are all the
  float \<open>v\<close> and the mean that the library returns for \<open>X\<close> is narrowed to \<open>v\<close>, every
  \<open>valueX\<close> is zero, \<open>E\<close> is zero or NaN and \<open>deviationX\<close> is zero: the function returns NaN
  in every arithmetic that rounds 0 to 0, and reports nothing.  The same holds for \<open>Y\<close>.
\<close>

lemma fmul_zero:
  assumes "rnd 0 = Finite 0"
  shows "fmul rnd (Finite 0) w = Finite 0 \<or> fmul rnd (Finite 0) w = NaN"
    and "fmul rnd w (Finite 0) = Finite 0 \<or> fmul rnd w (Finite 0) = NaN"
  using assms by (cases w; simp)+

lemma crossCorrelation_float_degenerate:
  assumes "rows X = rows Y" "cols X = cols Y"
    "empty_mat msk \<or> (rows msk = rows X \<and> cols msk = cols X)"
    "\<forall>p \<in> spec_active X msk. mat_at X (fst p) (snd p) = v"
    "rnd (cv_mean X msk) = Finite v" "rnd 0 = Finite 0"
  shows "crossCorrelation_float rnd cv_mean X Y msk = Inr NaN"
proof -
  let ?reg = "if empty_mat msk then ones (rows X) (cols X) else msk"
  let ?mY = "rnd (cv_mean Y msk)"
  let ?P = "\<lambda>acc. (fst acc = Finite 0 \<or> fst acc = NaN) \<and> fst (snd acc) = Finite 0"
  have step: "?P (cc_body_float rnd X Y ?reg (Finite v) ?mY row acc col)"
    if "row \<in> set [0..rows X - 1]" "col \<in> set [0..cols X - 1]" "?P acc" for row col acc
  proof (cases "0 < mat_at ?reg row col")
    case False
    then show ?thesis using that(3) by (simp add: cc_body_float_def split: prod.splits)
  next
    case True
    have rg: "0 \<le> row" "row < rows X" "0 \<le> col" "col < cols X" using that(1,2) by simp_all
    have "empty_mat msk \<or> mat_at msk row col \<noteq> 0"
      using True region_active [OF rg, of msk] by simp
    then have "(row, col) \<in> spec_active X msk" using rg by (simp add: spec_active_def)
    then have x: "mat_at X row col = v" using assms(4) by force
    have vx: "fsub rnd (Finite (mat_at X row col)) (Finite v) = Finite 0"
      by (simp add: x fsub_def assms(6))
    obtain E dX dY where acc: "acc = (E, dX, dY)" by (metis prod.exhaust)
    have E: "E = Finite 0 \<or> E = NaN" and dX: "dX = Finite 0" using that(3) by (simp_all add: acc)
    let ?w = "fsub rnd (Finite (mat_at Y row col)) ?mY"
    have "fadd rnd E (fmul rnd (Finite 0) ?w) = Finite 0 \<or> fadd rnd E (fmul rnd (Finite 0) ?w) = NaN"
      using E fmul_zero(1) [where rnd = rnd and w = ?w, OF assms(6)] by (auto simp: assms(6))
    moreover have "fadd rnd dX (fmul rnd (Finite 0) (Finite 0)) = Finite 0"
      by (simp add: dX assms(6))
    ultimately show ?thesis
      using True by (simp add: cc_body_float_def acc Let_def vx)
  qed
  have "?P (cc_sums_float rnd X Y ?reg (Finite v) ?mY)"
    unfolding cc_sums_float_def
    by (rule foldl_invariant_in [where P = ?P], rule foldl_invariant_in [where P = ?P])
       (use step in simp_all)
  then obtain E dY where s: "cc_sums_float rnd X Y ?reg (Finite v) ?mY = (E, Finite 0, dY)"
    and E: "E = Finite 0 \<or> E = NaN"
    by (cases "cc_sums_float rnd X Y ?reg (Finite v) ?mY") auto
  have "fmul rnd (Finite 0) (fsqrt rnd dY) = Finite 0 \<or> fmul rnd (Finite 0) (fsqrt rnd dY) = NaN"
    by (rule fmul_zero(1) [where rnd = rnd, OF assms(6)])
  then have "fdivide rnd E (fmul rnd (fsqrt rnd (Finite 0)) (fsqrt rnd dY)) = NaN"
    using E by (auto simp: assms(6) fdiv_def)
  then show ?thesis
    using assms(1-3) by (auto simp: crossCorrelation_float_def Let_def assms(5) s)
qed

lemma crossCorrelation_float_degenerate_right:
  assumes "rows X = rows Y" "cols X = cols Y"
    "empty_mat msk \<or> (rows msk = rows X \<and> cols msk = cols X)"
    "\<forall>p \<in> spec_active Y msk. mat_at Y (fst p) (snd p) = v"
    "rnd (cv_mean Y msk) = Finite v" "rnd 0 = Finite 0"
  shows "crossCorrelation_float rnd cv_mean X Y msk = Inr NaN"
proof -
  let ?reg = "if empty_mat msk then ones (rows X) (cols X) else msk"
  let ?mX = "rnd (cv_mean X msk)"
  let ?P = "\<lambda>acc. (fst acc = Finite 0 \<or> fst acc = NaN) \<and> snd (snd acc) = Finite 0"
  have act: "spec_active Y msk = spec_active X msk"
    using assms(1,2) by (simp add: spec_active_def)
  have step: "?P (cc_body_float rnd X Y ?reg ?mX (Finite v) row acc col)"
    if "row \<in> set [0..rows X - 1]" "col \<in> set [0..cols X - 1]" "?P acc" for row col acc
  proof (cases "0 < mat_at ?reg row col")
    case False
    then show ?thesis using that(3) by (simp add: cc_body_float_def split: prod.splits)
  next
    case True
    have rg: "0 \<le> row" "row < rows X" "0 \<le> col" "col < cols X" using that(1,2) by simp_all
    have "empty_mat msk \<or> mat_at msk row col \<noteq> 0"
      using True region_active [OF rg, of msk] by simp
    then have "(row, col) \<in> spec_active X msk" using rg by (simp add: spec_active_def)
    then have "(row, col) \<in> spec_active Y msk" by (simp only: act)
    then have y: "mat_at Y row col = v" using assms(4) by force
    have vy: "fsub rnd (Finite (mat_at Y row col)) (Finite v) = Finite 0"
      by (simp add: y fsub_def assms(6))
    obtain E dX dY where acc: "acc = (E, dX, dY)" by (metis prod.exhaust)
    have E: "E = Finite 0 \<or> E = NaN" and dY: "dY = Finite 0" using that(3) by (simp_all add: acc)
    let ?w = "fsub rnd (Finite (mat_at X row col)) ?mX"
    have "fadd rnd E (fmul rnd ?w (Finite 0)) = Finite 0 \<or> fadd rnd E (fmul rnd ?w (Finite 0)) = NaN"
      using E fmul_zero(2) [where rnd = rnd and w = ?w, OF assms(6)] by (auto simp: assms(6))
    moreover have "fadd rnd dY (fmul rnd (Finite 0) (Finite 0)) = Finite 0"
      by (simp add: dY assms(6))
    ultimately show ?thesis
      using True by (simp add: cc_body_float_def acc Let_def vy)
  qed
  have "?P (cc_sums_float rnd X Y ?reg ?mX (Finite v))"
    unfolding cc_sums_float_def
    by (rule foldl_invariant_in [where P = ?P], rule foldl_invariant_in [where P = ?P])
       (use step in simp_all)
  then obtain E dX where s: "cc_sums_float rnd X Y ?reg ?mX (Finite v) = (E, dX, Finite 0)"
    and E: "E = Finite 0 \<or> E = NaN"
    by (cases "cc_sums_float rnd X Y ?reg ?mX (Finite v)") auto
  have "fmul rnd (fsqrt rnd dX) (Finite 0) = Finite 0 \<or> fmul rnd (fsqrt rnd dX) (Finite 0) = NaN"
    by (rule fmul_zero(2) [where rnd = rnd, OF assms(6)])
  then have "fdivide rnd E (fmul rnd (fsqrt rnd dX) (fsqrt rnd (Finite 0))) = NaN"
    using E by (auto simp: assms(6) fdiv_def)
  then show ?thesis
    using assms(1-3) by (auto simp: crossCorrelation_float_def Let_def assms(5) s)
qed

section \<open>Reading and writing rectangles\<close>

lemma has_size_nonneg: "has_size m r c \<Longrightarrow> 0 \<le> r \<and> 0 \<le> c"
  by (auto simp: has_size_def rows_def cols_def split: list.splits)

lemma has_size_nth:
  assumes "has_size m r c" "0 \<le> row" "row < r"
  shows "int (length (m ! nat row)) = c"
proof -
  have "nat row < length m" using assms by (auto simp: has_size_def rows_def)
  then have "m ! nat row \<in> set m" by simp
  then show ?thesis using assms(1) by (simp add: has_size_def mat_ok_def)
qed

lemma rows_tabulate: "0 \<le> r \<Longrightarrow> rows (tabulate r c f) = r"
  by (simp add: rows_def tabulate_def)

lemma has_size_tabulate: "1 \<le> r \<Longrightarrow> 0 \<le> c \<Longrightarrow> has_size (tabulate r c f) r c"
  by (rule has_sizeI) (auto simp: tabulate_def)

lemma tabulate_cong:
  assumes "\<And>row col. 0 \<le> row \<Longrightarrow> row < r \<Longrightarrow> 0 \<le> col \<Longrightarrow> col < c \<Longrightarrow> f row col = g row col"
  shows "tabulate r c f = tabulate r c g"
  using assms by (simp add: tabulate_def)

lemma tabulate_mat_at:
  assumes "has_size m r c"
  shows "tabulate r c (mat_at m) = m"
proof (rule nth_equalityI)
  have r: "int (length m) = r" using assms by (simp add: has_size_def rows_def)
  then show len: "length (tabulate r c (mat_at m)) = length m"
    by (simp add: tabulate_def)
  fix i assume "i < length (tabulate r c (mat_at m))"
  then have i: "i < length m" using len by simp
  then have ir: "int i < r" using r by simp
  have li: "int (length (m ! i)) = c" using has_size_nth [OF assms, of "int i"] ir by simp
  have "tabulate r c (mat_at m) ! i = map (\<lambda>col. mat_at m (int i) col) [0..c - 1]"
    using ir by (simp add: tabulate_def)
  also have "\<dots> = m ! i"
  proof (rule nth_equalityI)
    show "length (map (\<lambda>col. mat_at m (int i) col) [0..c - 1]) = length (m ! i)"
      using li by simp
    fix j assume "j < length (map (\<lambda>col. mat_at m (int i) col) [0..c - 1])"
    then have j: "int j < c" by simp
    then have "[0..c - 1] ! j = int j" using nth_upto [of 0 j "c - 1"] by simp
    then show "map (\<lambda>col. mat_at m (int i) col) [0..c - 1] ! j = m ! i ! j"
      using j by (simp add: mat_at_def)
  qed
  finally show "tabulate r c (mat_at m) ! i = m ! i" .
qed

lemma mat_ext:
  assumes "has_size a r c" "has_size b r c"
    "\<And>row col. 0 \<le> row \<Longrightarrow> row < r \<Longrightarrow> 0 \<le> col \<Longrightarrow> col < c \<Longrightarrow> mat_at a row col = mat_at b row col"
  shows "a = b"
proof -
  have "a = tabulate r c (mat_at a)" using assms(1) by (simp add: tabulate_mat_at)
  also have "\<dots> = tabulate r c (mat_at b)" using assms(3) by (rule tabulate_cong)
  also have "\<dots> = b" using assms(2) by (simp add: tabulate_mat_at)
  finally show ?thesis .
qed

lemma rows_sub_mat:
  assumes "has_size m r c" "0 \<le> y" "0 \<le> h" "y + h \<le> r"
  shows "rows (sub_mat m x y w h) = h"
  using assms by (auto simp: sub_mat_def rows_def has_size_def)

lemma cols_sub_mat:
  assumes "has_size m r c" "0 \<le> y" "1 \<le> h" "y + h \<le> r" "0 \<le> x" "0 \<le> w" "x + w \<le> c"
  shows "cols (sub_mat m x y w h) = w"
proof -
  obtain d where "roi m x y w h = Inr d" "has_size d h w"
    using roi_size [OF assms(1,5,6,7,2,3,4)] by auto
  then show ?thesis using assms by (auto simp: roi_def has_size_def split: if_splits)
qed

lemma mat_at_sub_mat:
  assumes "has_size m r c" "0 \<le> y" "y + h \<le> r" "0 \<le> x" "x + w \<le> c"
    "0 \<le> i" "i < h" "0 \<le> j" "j < w"
  shows "mat_at (sub_mat m x y w h) i j = mat_at m (y + i) (x + j)"
proof -
  have r: "int (length m) = r" using assms(1) by (simp add: has_size_def rows_def)
  have l: "int (length (m ! nat (y + i))) = c"
    using has_size_nth [OF assms(1), of "y + i"] assms by simp
  have "sub_mat m x y w h ! nat i = take (nat w) (drop (nat x) (m ! (nat y + nat i)))"
    using assms r by (simp add: sub_mat_def)
  moreover have "nat y + nat i = nat (y + i)" "nat x + nat j = nat (x + j)"
    using assms by (simp_all add: nat_add_distrib)
  ultimately show ?thesis using assms l by (simp add: mat_at_def)
qed

lemma sub_rect:
  assumes "has_size m r c" "0 \<le> y" "0 \<le> h" "y + h \<le> r" "0 \<le> x" "0 \<le> w" "x + w \<le> c"
  shows "(y' \<le> row \<and> row < y' + rows (sub_mat m x y w h) \<and> x' \<le> col \<and> col < x' + cols (sub_mat m x y w h))
         \<longleftrightarrow> (y' \<le> row \<and> row < y' + h \<and> x' \<le> col \<and> col < x' + w)"
proof (cases "h = 0")
  case True
  then show ?thesis using rows_sub_mat [OF assms(1-4), of x w] by auto
next
  case False
  then have "1 \<le> h" using assms(3) by simp
  then show ?thesis
    using rows_sub_mat [OF assms(1-4), of x w] cols_sub_mat [OF assms(1,2) _ assms(4,5,6,7)]
    by simp
qed

lemma has_size_write_roi:
  assumes "has_size img r c"
  shows "has_size (write_roi img x y sub) r c"
proof (cases "img = []")
  case True
  then show ?thesis using assms
    by (simp add: write_roi_def tabulate_def rows_def)
next
  case False
  then have "1 \<le> r" using assms by (cases img) (auto simp: has_size_def rows_def)
  moreover have "0 \<le> c" using has_size_nonneg [OF assms] by simp
  moreover have "rows img = r" "cols img = c" using assms by (simp_all add: has_size_def)
  ultimately show ?thesis by (simp add: write_roi_def has_size_tabulate)
qed

lemma mat_at_write_roi:
  assumes "has_size img r c" "0 \<le> row" "row < r" "0 \<le> col" "col < c"
  shows "mat_at (write_roi img x y sub) row col =
           (if y \<le> row \<and> row < y + rows sub \<and> x \<le> col \<and> col < x + cols sub
            then mat_at sub (row - y) (col - x) else mat_at img row col)"
proof -
  have "rows img = r" "cols img = c" using assms(1) by (simp_all add: has_size_def)
  then show ?thesis using assms(2-5) by (simp add: write_roi_def mat_at_tabulate)
qed

section \<open>The quadrant swap is an involution\<close>

lemma sdiv2_nonneg: "0 \<le> n \<Longrightarrow> n sdiv 2 = n div 2" for n :: int
  by (simp add: signed_divide_int_def sgn_if)

lemma mat_at_write_sub:
  assumes "has_size img r c" "0 \<le> row" "row < r" "0 \<le> col" "col < c"
    and "has_size src r' c'" "0 \<le> y" "0 \<le> h" "y + h \<le> r'" "0 \<le> x" "0 \<le> w" "x + w \<le> c'"
  shows "mat_at (write_roi img x' y' (sub_mat src x y w h)) row col =
           (if y' \<le> row \<and> row < y' + h \<and> x' \<le> col \<and> col < x' + w
            then mat_at src (y + (row - y')) (x + (col - x')) else mat_at img row col)"
proof -
  let ?P = "y' \<le> row \<and> row < y' + h \<and> x' \<le> col \<and> col < x' + w"
  let ?Q = "y' \<le> row \<and> row < y' + rows (sub_mat src x y w h) \<and>
            x' \<le> col \<and> col < x' + cols (sub_mat src x y w h)"
  have pq: "?Q \<longleftrightarrow> ?P" by (rule sub_rect [OF assms(6-12)])
  have wr: "mat_at (write_roi img x' y' (sub_mat src x y w h)) row col =
      (if ?Q then mat_at (sub_mat src x y w h) (row - y') (col - x') else mat_at img row col)"
    by (rule mat_at_write_roi [OF assms(1-5)])
  show ?thesis
  proof (cases ?P)
    case True
    then have "mat_at (sub_mat src x y w h) (row - y') (col - x') =
                 mat_at src (y + (row - y')) (x + (col - x'))"
      using assms(7-12) by (intro mat_at_sub_mat [OF assms(6)]) auto
    then show ?thesis unfolding wr pq using True by (simp only: if_P)
  next
    case False
    then show ?thesis unfolding wr pq by (simp only: if_not_P if_False)
  qed
qed

lemma swapQuadrants_at:
  assumes m: "has_size m r c" and rc: "0 \<le> row" "row < r" "0 \<le> col" "col < c"
  shows "mat_at (swapQuadrants m) row col =
           (if row < 2 * (r div 2) \<and> col < 2 * (c div 2)
            then mat_at m (if row < r div 2 then row + r div 2 else row - r div 2)
                          (if col < c div 2 then col + c div 2 else col - c div 2)
            else mat_at m row col)"
proof -
  define cx cy where "cx = c div 2" and "cy = r div 2"
  have nn: "0 \<le> r" "0 \<le> c" using has_size_nonneg [OF m] by simp_all
  have cxy: "0 \<le> cx" "0 \<le> cy" "2 * cx \<le> c" "2 * cy \<le> r"
    using nn by (simp_all add: cx_def cy_def)
  have dims: "cols m sdiv 2 = cx" "rows m sdiv 2 = cy"
    using m nn by (simp_all add: has_size_def sdiv2_nonneg cx_def cy_def)
  define tmp where "tmp = sub_mat m 0 0 cx cy"
  define img1 where "img1 = write_roi m 0 0 (sub_mat m cx cy cx cy)"
  define img2 where "img2 = write_roi img1 cx cy tmp"
  define tmp2 where "tmp2 = sub_mat img2 cx 0 cx cy"
  define img3 where "img3 = write_roi img2 cx 0 (sub_mat img2 0 cy cx cy)"
  define img4 where "img4 = write_roi img3 0 cy tmp2"
  have sw: "swapQuadrants m = img4"
    by (simp add: swapQuadrants_def Let_def dims img4_def img3_def tmp2_def img2_def img1_def tmp_def)
  have s1: "has_size img1 r c" unfolding img1_def using m by (rule has_size_write_roi)
  have s2: "has_size img2 r c" unfolding img2_def using s1 by (rule has_size_write_roi)
  have s3: "has_size img3 r c" unfolding img3_def using s2 by (rule has_size_write_roi)
  have s4: "has_size img4 r c" unfolding img4_def using s3 by (rule has_size_write_roi)
  have a1: "mat_at img1 i j =
      (if i < cy \<and> j < cx then mat_at m (cy + i) (cx + j) else mat_at m i j)"
    if "0 \<le> i" "i < r" "0 \<le> j" "j < c" for i j
    unfolding img1_def
    using mat_at_write_sub [OF m that m, of cy cy cx cx 0 0] that cxy by simp
  have a2: "mat_at img2 i j =
      (if cy \<le> i \<and> i < 2 * cy \<and> cx \<le> j \<and> j < 2 * cx then mat_at m (i - cy) (j - cx)
       else mat_at img1 i j)"
    if "0 \<le> i" "i < r" "0 \<le> j" "j < c" for i j
    unfolding img2_def tmp_def
    using mat_at_write_sub [OF s1 that m, of 0 cy 0 cx cx cy] that cxy by simp
  have a3: "mat_at img3 i j =
      (if i < cy \<and> cx \<le> j \<and> j < 2 * cx then mat_at img2 (cy + i) (j - cx)
       else mat_at img2 i j)"
    if "0 \<le> i" "i < r" "0 \<le> j" "j < c" for i j
    unfolding img3_def
    using mat_at_write_sub [OF s2 that s2, of cy cy 0 cx cx 0] that cxy by simp
  have a4: "mat_at img4 i j =
      (if cy \<le> i \<and> i < 2 * cy \<and> j < cx then mat_at img2 (i - cy) (cx + j)
       else mat_at img3 i j)"
    if "0 \<le> i" "i < r" "0 \<le> j" "j < c" for i j
    unfolding img4_def tmp2_def
    using mat_at_write_sub [OF s3 that s2, of 0 cy cx cx 0 cy] that cxy by simp
  have "mat_at img4 row col =
           (if row < 2 * cy \<and> col < 2 * cx
            then mat_at m (if row < cy then row + cy else row - cy)
                          (if col < cx then col + cx else col - cx)
            else mat_at m row col)"
    using rc cxy by (auto simp: a4 a3 a2 a1 add.commute)
  then show ?thesis by (simp add: sw cx_def cy_def)
qed


lemma has_size_swapQuadrants:
  "has_size m r c \<Longrightarrow> has_size (swapQuadrants m) r c"
  by (simp add: swapQuadrants_def Let_def has_size_write_roi)

text \<open>
  Claim C9.  Applying \<open>swapQuadrants\<close> twice gives the grid back, for every (rectangular)
  grid, of even or odd size.
\<close>

theorem swapQuadrants_involution:
  assumes "mat_ok m"
  shows "swapQuadrants (swapQuadrants m) = m"
proof -
  define r c where "r = rows m" and "c = cols m"
  have m: "has_size m r c" using assms by (simp add: has_size_def r_def c_def)
  have s: "has_size (swapQuadrants m) r c" using m by (rule has_size_swapQuadrants)
  have ss: "has_size (swapQuadrants (swapQuadrants m)) r c" using s by (rule has_size_swapQuadrants)
  define cx cy where "cx = c div 2" and "cy = r div 2"
  have nn: "0 \<le> r" "0 \<le> c" using has_size_nonneg [OF m] by simp_all
  have cxy: "0 \<le> cx" "0 \<le> cy" "2 * cx \<le> c" "2 * cy \<le> r"
    using nn by (simp_all add: cx_def cy_def)
  have out: "mat_at (swapQuadrants g) i j = mat_at g i j"
    if "has_size g r c" "0 \<le> i" "i < r" "0 \<le> j" "j < c" "\<not> (i < 2 * cy \<and> j < 2 * cx)" for g :: "'a mat" and i j
  proof -
    have n: "\<not> (i < 2 * (r div 2) \<and> j < 2 * (c div 2))" using that(6) by (simp add: cx_def cy_def)
    show ?thesis by (simp only: swapQuadrants_at [OF that(1-5)] if_not_P [OF n])
  qed
  have inn: "mat_at (swapQuadrants g) i j =
      mat_at g (if i < cy then i + cy else i - cy) (if j < cx then j + cx else j - cx)"
    if "has_size g r c" "0 \<le> i" "i < r" "0 \<le> j" "j < c" "i < 2 * cy \<and> j < 2 * cx" for g :: "'a mat" and i j
  proof -
    have y: "i < 2 * (r div 2) \<and> j < 2 * (c div 2)" using that(6) by (simp add: cx_def cy_def)
    show ?thesis by (simp only: swapQuadrants_at [OF that(1-5)] if_P [OF y] cx_def cy_def)
  qed
  show ?thesis
  proof (rule mat_ext [OF ss m])
    fix row col assume rc: "0 \<le> row" "row < r" "0 \<le> col" "col < c"
    define row' col' where "row' = (if row < cy then row + cy else row - cy)"
      and "col' = (if col < cx then col + cx else col - cx)"
    show "mat_at (swapQuadrants (swapQuadrants m)) row col = mat_at m row col"
    proof (cases "row < 2 * cy \<and> col < 2 * cx")
      case False
      show ?thesis
        using out [OF s rc False] out [OF m rc False] by simp
    next
      case True
      then have inr: "0 \<le> row'" "row' < r" "0 \<le> col'" "col' < c"
        and lt: "row' < 2 * cy \<and> col' < 2 * cx"
        and inv: "(if row' < cy then row' + cy else row' - cy) = row"
          "(if col' < cx then col' + cx else col' - cx) = col"
        using rc cxy by (auto simp: row'_def col'_def)
      have "mat_at (swapQuadrants (swapQuadrants m)) row col = mat_at (swapQuadrants m) row' col'"
        using inn [OF s rc True] by (simp only: row'_def col'_def)
      also have "\<dots> = mat_at m row col"
        using inn [OF m inr lt] by (simp only: inv)
      finally show ?thesis .
    qed
  qed
qed

theorem swapQuadrants_involution_witness:
  "mat_ok [[1, 2, 3], [4, 5, 6], [7, 8, 9 :: int]] \<and>
   swapQuadrants (swapQuadrants [[1, 2, 3], [4, 5, 6], [7, 8, 9 :: int]]) =
     [[1, 2, 3], [4, 5, 6], [7, 8, 9]]"
proof -
  have ok: "mat_ok [[1, 2, 3], [4, 5, 6], [7, 8, 9 :: int]]"
    by (simp add: mat_ok_def cols_def)
  show ?thesis using swapQuadrants_involution [OF ok] ok by simp
qed

section \<open>Filling a rectangle\<close>

lemma has_size_set_at:
  assumes "has_size img r c"
  shows "has_size (set_at img row col v) r c"
proof (cases "0 \<le> row \<and> row < rows img \<and> 0 \<le> col \<and> col < cols img")
  case False
  show ?thesis unfolding set_at_def if_not_P [OF False] by (rule assms)
next
  case True
  have len: "int (length img) = r" and cl: "cols img = c"
    using assms by (simp_all add: has_size_def rows_def)
  have r1: "1 \<le> r" using True assms by (simp add: has_size_def)
  have "has_size (img[nat row := (img ! nat row)[nat col := v]]) r c"
  proof (rule has_sizeI)
    show "int (length (img[nat row := (img ! nat row)[nat col := v]])) = r" using len by simp
    show "1 \<le> r" by fact
    fix x assume "x \<in> set (img[nat row := (img ! nat row)[nat col := v]])"
    then have "x \<in> insert ((img ! nat row)[nat col := v]) (set img)"
      using set_update_subset_insert [of img "nat row" "(img ! nat row)[nat col := v]"] by blast
    then consider "x \<in> set img" | "x = (img ! nat row)[nat col := v]" by blast
    then show "int (length x) = c"
    proof cases
      case 1
      then show ?thesis by (rule has_size_row [OF assms])
    next
      case 2
      have "row < r" using True assms by (simp add: has_size_def)
      then have "int (length (img ! nat row)) = c"
        using has_size_nth [OF assms, of row] True by simp
      then show ?thesis using 2 by simp
    qed
  qed
  then show ?thesis unfolding set_at_def if_P [OF True] .
qed

lemma mat_at_set_at:
  assumes "has_size img r c" "0 \<le> i" "i < r" "0 \<le> j" "j < c"
  shows "mat_at (set_at img row col v) i j = (if i = row \<and> j = col then v else mat_at img i j)"
proof (cases "0 \<le> row \<and> row < rows img \<and> 0 \<le> col \<and> col < cols img")
  case False
  have "\<not> (i = row \<and> j = col)" using False assms by (auto simp: has_size_def)
  then show ?thesis unfolding set_at_def if_not_P [OF False] by (simp only: if_False)
next
  case True
  have len: "int (length img) = r" and cl: "cols img = c"
    using assms by (simp_all add: has_size_def rows_def)
  have li: "int (length (img ! nat i)) = c" using has_size_nth [OF assms(1-3)] .
  have ni: "nat i < length img" using assms(2,3) len by simp
  have nj: "nat j < length (img ! nat i)" using assms(4,5) li by simp
  have "mat_at (img[nat row := (img ! nat row)[nat col := v]]) i j =
        (if i = row \<and> j = col then v else mat_at img i j)"
  proof (cases "i = row")
    case False
    then have "nat i \<noteq> nat row" using assms(2) True by arith
    then show ?thesis using False by (simp add: mat_at_def)
  next
    case ir: True
    show ?thesis
    proof (cases "j = col")
      case True
      then show ?thesis using ir ni nj by (simp add: mat_at_def)
    next
      case False
      then have "nat j \<noteq> nat col" using assms(4) \<open>0 \<le> row \<and> row < rows img \<and> 0 \<le> col \<and> col < cols img\<close> by arith
      then show ?thesis using False ir ni by (simp add: mat_at_def)
    qed
  qed
  then show ?thesis unfolding set_at_def if_P [OF True] .
qed

lemma fill_cols:
  assumes "has_size img r c"
  shows "has_size (foldl (\<lambda>im col. set_at im row col v) img cs) r c \<and>
         (\<forall>i j. 0 \<le> i \<and> i < r \<and> 0 \<le> j \<and> j < c \<longrightarrow>
            mat_at (foldl (\<lambda>im col. set_at im row col v) img cs) i j =
              (if i = row \<and> j \<in> set cs then v else mat_at img i j))"
  using assms
proof (induction cs arbitrary: img)
  case Nil
  then show ?case by simp
next
  case (Cons a cs)
  have s: "has_size (set_at img row a v) r c" using Cons.prems by (rule has_size_set_at)
  show ?case
    using Cons.IH [OF s] by (auto simp: mat_at_set_at [OF Cons.prems])
qed

lemma fill_rows:
  assumes "has_size img r c"
  shows "has_size (foldl (\<lambda>im row. foldl (\<lambda>im col. set_at im row col v) im cs) img rs) r c \<and>
         (\<forall>i j. 0 \<le> i \<and> i < r \<and> 0 \<le> j \<and> j < c \<longrightarrow>
            mat_at (foldl (\<lambda>im row. foldl (\<lambda>im col. set_at im row col v) im cs) img rs) i j =
              (if i \<in> set rs \<and> j \<in> set cs then v else mat_at img i j))"
  using assms
proof (induction rs arbitrary: img)
  case Nil
  then show ?case by simp
next
  case (Cons a rs)
  have s: "has_size (foldl (\<lambda>im col. set_at im a col v) img cs) r c"
    using fill_cols [OF Cons.prems] by simp
  show ?case
    using Cons.IH [OF s] fill_cols [OF Cons.prems, of a v cs] by auto
qed

lemma has_size_fillPixel:
  "has_size img r c \<Longrightarrow> has_size (fillPixel img p q v) r c"
  using fill_rows [of img r c v] by (simp add: fillPixel_def)

lemma mat_at_fillPixel:
  assumes "has_size img r c" "0 \<le> i" "i < r" "0 \<le> j" "j < c"
  shows "mat_at (fillPixel img (sx, sy) (ex, ey) v) i j =
           (if sy \<le> i \<and> i \<le> ey \<and> sx \<le> j \<and> j \<le> ex then v else mat_at img i j)"
  using fill_rows [OF assms(1), of v "[sx..ex]" "[sy..ey]"] assms(2-5)
  by (simp add: fillPixel_def)

section \<open>One step of the horizontal pass\<close>

lemma sdiv2: "a sdiv 2 = (if 0 \<le> a then a div 2 else - ((- a) div 2))" for a :: int
  by (simp add: signed_divide_int_def sgn_if)

lemma has_size_hstep:
  assumes "has_size t r c"
  shows "has_size (fst (hstep src row (t, l, s) col)) r c"
  using assms by (simp add: hstep_def Let_def has_size_fillPixel)

lemma hstep_nonzero:
  assumes "mat_at src row col \<noteq> 0"
  shows "snd (snd (hstep src row (t, l, s) col)) = (-1, -1)"
  using assms by (simp add: hstep_def Let_def word_gt_0)

lemma hstep_open:
  assumes "mat_at src row col = 0"
  shows "hstep src row (t, l, (-1, -1)) col =
           (t, (if 0 < col then mat_at src row (col - 1) else 0), (col, row))"
  using assms by (simp add: hstep_def Let_def)

lemma hstep_skip:
  assumes "mat_at src row col = 0" "col \<noteq> cols src - 1" "s \<noteq> (-1, -1)"
  shows "hstep src row (t, l, s) col = (t, l, s)"
  using assms by (simp add: hstep_def Let_def)

lemma hstep_close:
  fixes l :: "8 word"
  assumes t: "has_size t r c" and c: "cols src = c"
    and s: "0 \<le> sx" "sx \<le> col"
    and v: "mat_at src row col \<noteq> 0 \<or> col = c - 1"
  defines "m \<equiv> col - (col - sx) div 2"
    and "L \<equiv> (if sx = 0 then mat_at src row col else l)"
  defines "V \<equiv> (if col = c - 1 then L else mat_at src row col)"
  shows "\<exists>t'. hstep src row (t, l, (sx, row)) col = (t', L, (-1, -1)) \<and> has_size t' r c \<and>
           (\<forall>i j. 0 \<le> i \<and> i < r \<and> 0 \<le> j \<and> j < c \<longrightarrow>
              mat_at t' i j = (if i = row \<and> m \<le> j \<and> j \<le> col then V
                               else if i = row \<and> sx \<le> j \<and> j < m then L
                               else mat_at t i j))"
proof -
  define t1 where "t1 = fillPixel t (sx, row) (m, row) L"
  define t2 where "t2 = fillPixel t1 (m, row) (col, row) V"
  have ne: "(sx, row) \<noteq> (-1, -1)" using s by auto
  have e: "col - (col - sx) sdiv 2 = m" using s by (simp add: sdiv2 m_def)
  have h: "hstep src row (t, l, (sx, row)) col = (t2, L, (-1, -1))"
    using v ne s
    by (simp add: hstep_def Let_def c e t2_def t1_def L_def V_def word_gt_0)
  have mb: "sx \<le> m" "m \<le> col" using s unfolding m_def by arith+
  have s1: "has_size t1 r c" unfolding t1_def using t by (rule has_size_fillPixel)
  have s2: "has_size t2 r c" unfolding t2_def using s1 by (rule has_size_fillPixel)
  have "mat_at t2 i j = (if i = row \<and> m \<le> j \<and> j \<le> col then V
                               else if i = row \<and> sx \<le> j \<and> j < m then L
                               else mat_at t i j)"
    if "0 \<le> i" "i < r" "0 \<le> j" "j < c" for i j
    unfolding t2_def t1_def mat_at_fillPixel [OF s1 [unfolded t1_def] that] mat_at_fillPixel [OF t that]
    using mb by auto
  then show ?thesis using h s2 by blast
qed


lemma hstep_cases:
  obtains (same) "fst (hstep src row (t, l, (sx, sy)) col) = t"
      "snd (snd (hstep src row (t, l, (sx, sy)) col)) = (sx, sy) \<or>
       snd (snd (hstep src row (t, l, (sx, sy)) col)) = (col, row)"
  | (closed) L V where "(sx, sy) \<noteq> (-1, -1)"
      "hstep src row (t, l, (sx, sy)) col =
         (fillPixel (fillPixel t (sx, sy)
                      (col - (col - sx) sdiv 2, row - (row - sy) sdiv 2) L)
            (col - (col - sx) sdiv 2, row - (row - sy) sdiv 2) (col, row) V, L, (-1, -1))"
  by (cases "(sx, sy) \<noteq> (-1, -1) \<and> (0 < mat_at src row col \<or> col = cols src - 1)")
     (auto simp: hstep_def Let_def)

lemma hstep_frame:
  assumes t: "has_size t r c"
    and cur: "0 \<le> row" "row < r" "0 \<le> col" "col < c"
    and after: "row0 < row \<or> (row0 = row \<and> col0 < col)"
    and inv: "(sx, sy) = (-1, -1) \<or>
              ((row0 < sy \<or> (row0 = sy \<and> col0 < sx)) \<and> (sy < row \<or> (sy = row \<and> sx \<le> col)))"
    and h: "hstep src row (t, l, (sx, sy)) col = (t', l', (sx', sy'))"
  shows "has_size t' r c \<and>
    ((sx', sy') = (-1, -1) \<or>
       ((row0 < sy' \<or> (row0 = sy' \<and> col0 < sx')) \<and> (sy' < row \<or> (sy' = row \<and> sx' \<le> col)))) \<and>
    (\<forall>i j. 0 \<le> i \<and> i < r \<and> 0 \<le> j \<and> j < c \<and> (i < row0 \<or> (i = row0 \<and> j \<le> col0))
        \<longrightarrow> mat_at t' i j = mat_at t i j)"
proof (cases rule: hstep_cases [of src row t l sx sy col])
  case same
  then show ?thesis using h t inv after by auto
next
  case (closed L V)
  define ex ey where "ex = col - (col - sx) sdiv 2" and "ey = row - (row - sy) sdiv 2"
  define t1 where "t1 = fillPixel t (sx, sy) (ex, ey) L"
  have t': "t' = fillPixel t1 (ex, ey) (col, row) V" and s': "(sx', sy') = (-1, -1)"
    using h closed(2) by (auto simp: t1_def ex_def ey_def)
  have s1: "has_size t1 r c" unfolding t1_def using t by (rule has_size_fillPixel)
  have s2: "has_size t' r c" unfolding t' using s1 by (rule has_size_fillPixel)
  have b: "(row0 < sy \<or> (row0 = sy \<and> col0 < sx)) \<and> (sy < row \<or> (sy = row \<and> sx \<le> col))"
    using inv closed(1) by blast
  have "mat_at t' i j = mat_at t i j"
    if ij: "0 \<le> i" "i < r" "0 \<le> j" "j < c" and le: "i < row0 \<or> (i = row0 \<and> j \<le> col0)" for i j
  proof -
    have n1: "\<not> (sy \<le> i \<and> i \<le> ey \<and> sx \<le> j \<and> j \<le> ex)"
      using b le by arith
    have n2: "\<not> (ey \<le> i \<and> i \<le> row \<and> ex \<le> j \<and> j \<le> col)"
      using b le unfolding ex_def ey_def sdiv2 by (auto split: if_splits)
    show ?thesis
      unfolding t' t1_def mat_at_fillPixel [OF s1 [unfolded t1_def] ij] mat_at_fillPixel [OF t ij]
      using n1 n2 by (simp only: if_False)
  qed
  then show ?thesis using s2 s' by blast
qed

section \<open>Later steps of the horizontal pass leave earlier pixels alone\<close>

lemma cols_frame:
  assumes "has_size t r c" "0 \<le> row" "row < r" "0 \<le> lo" "hi < c"
    and "row0 < row \<or> (row0 = row \<and> col0 < lo)"
    and "(sx, sy) = (-1, -1) \<or>
         ((row0 < sy \<or> (row0 = sy \<and> col0 < sx)) \<and> (sy < row \<or> (sy = row \<and> sx \<le> lo)))"
    and "foldl (hstep src row) (t, l, (sx, sy)) [lo..hi] = (t', l', (sx', sy'))"
  shows "has_size t' r c \<and>
    ((sx', sy') = (-1, -1) \<or> ((row0 < sy' \<or> (row0 = sy' \<and> col0 < sx')) \<and> sy' \<le> row)) \<and>
    (\<forall>i j. 0 \<le> i \<and> i < r \<and> 0 \<le> j \<and> j < c \<and> (i < row0 \<or> (i = row0 \<and> j \<le> col0))
        \<longrightarrow> mat_at t' i j = mat_at t i j)"
  using assms
proof (induction "nat (hi + 1 - lo)" arbitrary: lo t l sx sy)
  case 0
  then have "[lo..hi] = []" by simp
  then show ?case using 0 by auto
next
  case (Suc n)
  then have le: "lo \<le> hi" by simp
  then have up: "[lo..hi] = lo # [lo + 1..hi]" by (rule upto_rec1)
  obtain t1 l1 sx1 sy1 where h: "hstep src row (t, l, (sx, sy)) lo = (t1, l1, (sx1, sy1))"
    by (metis prod.exhaust)
  have lo: "0 \<le> lo" "lo < c" using Suc.prems le by simp_all
  have f: "has_size t1 r c \<and>
    ((sx1, sy1) = (-1, -1) \<or>
       ((row0 < sy1 \<or> (row0 = sy1 \<and> col0 < sx1)) \<and> (sy1 < row \<or> (sy1 = row \<and> sx1 \<le> lo)))) \<and>
    (\<forall>i j. 0 \<le> i \<and> i < r \<and> 0 \<le> j \<and> j < c \<and> (i < row0 \<or> (i = row0 \<and> j \<le> col0))
        \<longrightarrow> mat_at t1 i j = mat_at t i j)"
    by (rule hstep_frame [OF Suc.prems(1,2,3) lo Suc.prems(6,7) h])
  have n: "n = nat (hi + 1 - (lo + 1))" using Suc.hyps(2) by simp
  have rest: "foldl (hstep src row) (t1, l1, (sx1, sy1)) [lo + 1..hi] = (t', l', (sx', sy'))"
    using Suc.prems(8) by (simp add: up h)
  have a': "row0 < row \<or> (row0 = row \<and> col0 < lo + 1)" using Suc.prems(6) by auto
  have i': "(sx1, sy1) = (-1, -1) \<or>
         ((row0 < sy1 \<or> (row0 = sy1 \<and> col0 < sx1)) \<and> (sy1 < row \<or> (sy1 = row \<and> sx1 \<le> lo + 1)))"
    using f by auto
  have lo1: "0 \<le> lo + 1" using lo by simp
  have g: "has_size t' r c \<and>
    ((sx', sy') = (-1, -1) \<or> ((row0 < sy' \<or> (row0 = sy' \<and> col0 < sx')) \<and> sy' \<le> row)) \<and>
    (\<forall>i j. 0 \<le> i \<and> i < r \<and> 0 \<le> j \<and> j < c \<and> (i < row0 \<or> (i = row0 \<and> j \<le> col0))
        \<longrightarrow> mat_at t' i j = mat_at t1 i j)"
    using f by (intro Suc.hyps(1) [OF n _ Suc.prems(2,3) lo1 Suc.prems(5) a' i' rest]) simp
  show ?case using f g by simp
qed

lemma rows_frame:
  assumes "has_size t r c" "cols src = c" "0 \<le> lo" "hi < r" "row0 < lo"
    and "(sx, sy) = (-1, -1) \<or> ((row0 < sy \<or> (row0 = sy \<and> col0 < sx)) \<and> sy < lo)"
    and "scan_rows src (t, l, (sx, sy)) [lo..hi] = (t', l', (sx', sy'))"
  shows "has_size t' r c \<and>
    (\<forall>i j. 0 \<le> i \<and> i < r \<and> 0 \<le> j \<and> j < c \<and> (i < row0 \<or> (i = row0 \<and> j \<le> col0))
        \<longrightarrow> mat_at t' i j = mat_at t i j)"
  using assms
proof (induction "nat (hi + 1 - lo)" arbitrary: lo t l sx sy)
  case 0
  then have "[lo..hi] = []" by simp
  then show ?case using 0 by (auto simp: scan_rows_def)
next
  case (Suc n)
  then have le: "lo \<le> hi" by simp
  then have up: "[lo..hi] = lo # [lo + 1..hi]" by (rule upto_rec1)
  obtain t1 l1 sx1 sy1 where h: "foldl (hstep src lo) (t, l, (sx, sy)) [0..c - 1] = (t1, l1, (sx1, sy1))"
    by (metis prod.exhaust)
  have lo: "0 \<le> lo" "lo < r" using Suc.prems le by simp_all
  have a: "row0 < lo \<or> (row0 = lo \<and> col0 < 0)" using Suc.prems(5) by simp
  have i: "(sx, sy) = (-1, -1) \<or>
         ((row0 < sy \<or> (row0 = sy \<and> col0 < sx)) \<and> (sy < lo \<or> (sy = lo \<and> sx \<le> 0)))"
    using Suc.prems(6) by auto
  have f: "has_size t1 r c \<and>
    ((sx1, sy1) = (-1, -1) \<or> ((row0 < sy1 \<or> (row0 = sy1 \<and> col0 < sx1)) \<and> sy1 \<le> lo)) \<and>
    (\<forall>i j. 0 \<le> i \<and> i < r \<and> 0 \<le> j \<and> j < c \<and> (i < row0 \<or> (i = row0 \<and> j \<le> col0))
        \<longrightarrow> mat_at t1 i j = mat_at t i j)"
    by (rule cols_frame [OF Suc.prems(1) lo _ _ a i h]) simp_all
  have n: "n = nat (hi + 1 - (lo + 1))" using Suc.hyps(2) by simp
  have rest: "scan_rows src (t1, l1, (sx1, sy1)) [lo + 1..hi] = (t', l', (sx', sy'))"
    using Suc.prems(7) by (simp add: up scan_rows_def Suc.prems(2) h)
  have i': "(sx1, sy1) = (-1, -1) \<or> ((row0 < sy1 \<or> (row0 = sy1 \<and> col0 < sx1)) \<and> sy1 < lo + 1)"
    using f by auto
  have lo1: "0 \<le> lo + 1" "row0 < lo + 1" using lo Suc.prems(5) by simp_all
  have g: "has_size t' r c \<and>
    (\<forall>i j. 0 \<le> i \<and> i < r \<and> 0 \<le> j \<and> j < c \<and> (i < row0 \<or> (i = row0 \<and> j \<le> col0))
        \<longrightarrow> mat_at t' i j = mat_at t1 i j)"
    using f by (intro Suc.hyps(1) [OF n _ Suc.prems(2) lo1(1) Suc.prems(4) lo1(2) i' rest]) simp
  show ?case using f g by simp
qed

section \<open>The horizontal pass as a sequence of steps\<close>

lemma has_size_foldl_hstep:
  assumes "has_size (fst st) r c"
  shows "has_size (fst (foldl (hstep src row) st cs)) r c"
  using assms
proof (induction cs arbitrary: st)
  case Nil
  then show ?case by simp
next
  case (Cons a cs)
  obtain t l s where st: "st = (t, l, s)" by (metis prod.exhaust)
  have "has_size (fst (hstep src row st a)) r c"
    using Cons.prems has_size_hstep [of t r c src row l s a] by (simp add: st)
  then show ?case using Cons.IH by simp
qed

lemma has_size_scan_rows:
  assumes "has_size (fst st) r c"
  shows "has_size (fst (scan_rows src st rs)) r c"
  using assms
proof (induction rs arbitrary: st)
  case Nil
  then show ?case by (simp add: scan_rows_def)
next
  case (Cons a rs)
  have "has_size (fst (foldl (hstep src a) st [0..cols src - 1])) r c"
    using Cons.prems by (rule has_size_foldl_hstep)
  then show ?case using Cons.IH by (simp add: scan_rows_def)
qed

lemma has_size_scan_upto:
  "has_size src r c \<Longrightarrow> has_size (fst (scan_upto src row col)) r c"
  unfolding scan_upto_def
  by (intro has_size_foldl_hstep has_size_scan_rows) simp

lemma scan_upto_start: "scan_upto src 0 0 = (src, 0, (-1, -1))"
  by (simp add: scan_upto_def scan_rows_def)

lemma scan_upto_step:
  assumes "0 \<le> col"
  shows "scan_upto src row (col + 1) = hstep src row (scan_upto src row col) col"
proof -
  have "[0..col + 1 - 1] = [0..col - 1] @ [col]"
    using assms upto_rec2 [of 0 col] by simp
  then show ?thesis by (simp add: scan_upto_def)
qed

lemma scan_upto_next_row:
  assumes "0 \<le> row"
  shows "scan_upto src (row + 1) 0 = scan_upto src row (cols src)"
proof -
  have "[0..row + 1 - 1] = [0..row - 1] @ [row]"
    using assms upto_rec2 [of 0 row] by simp
  then show ?thesis by (simp add: scan_upto_def scan_rows_def)
qed

lemma taperHorizontal_scan_upto: "taperHorizontal src = fst (scan_upto src (rows src) 0)"
  by (simp add: taperHorizontal_def scan_upto_def)

lemma taperHorizontal_split:
  assumes "cols src = c" "rows src = r" "0 \<le> row" "row < r" "0 \<le> col" "col < c"
  shows "taperHorizontal src =
     fst (scan_rows src (foldl (hstep src row) (scan_upto src row (col + 1)) [col + 1..c - 1])
            [row + 1..r - 1])"
proof -
  have r: "[0..r - 1] = [0..row - 1] @ row # [row + 1..r - 1]"
    using assms(3,4) upto_split3 [of 0 row "r - 1"] by simp
  have c: "[0..c - 1] = [0..col + 1 - 1] @ [col + 1..c - 1]"
    using assms(5,6) upto_split2 [of 0 col "c - 1"] by (simp add: add.commute)
  show ?thesis
    unfolding taperHorizontal_def assms(2) r
    by (simp add: scan_rows_def scan_upto_def assms(1)) (simp add: c)
qed

lemma final_pixel:
  assumes src: "has_size src r c" and rc: "0 \<le> row" "row < r" "0 \<le> col" "col < c"
    and closed: "snd (snd (scan_upto src row (col + 1))) = (-1, -1)"
    and ij: "0 \<le> i" "i < r" "0 \<le> j" "j < c" "i < row \<or> (i = row \<and> j \<le> col)"
  shows "mat_at (taperHorizontal src) i j = mat_at (fst (scan_upto src row (col + 1))) i j"
proof -
  have dims: "cols src = c" "rows src = r" using src by (simp_all add: has_size_def)
  obtain t l where st: "scan_upto src row (col + 1) = (t, l, (-1, -1))"
    using closed by (metis prod.collapse)
  have t: "has_size t r c" using has_size_scan_upto [OF src, of row "col + 1"] by (simp add: st)
  obtain t1 l1 sx1 sy1 where
    f1: "foldl (hstep src row) (t, l, (-1, -1)) [col + 1..c - 1] = (t1, l1, (sx1, sy1))"
    by (metis prod.exhaust)
  have c1: "has_size t1 r c \<and>
    ((sx1, sy1) = (-1, -1) \<or> ((row < sy1 \<or> (row = sy1 \<and> col < sx1)) \<and> sy1 \<le> row)) \<and>
    (\<forall>i j. 0 \<le> i \<and> i < r \<and> 0 \<le> j \<and> j < c \<and> (i < row \<or> (i = row \<and> j \<le> col))
        \<longrightarrow> mat_at t1 i j = mat_at t i j)"
    using rc by (intro cols_frame [OF t rc(1,2) _ _ _ _ f1]) auto
  obtain t2 l2 sx2 sy2 where
    f2: "scan_rows src (t1, l1, (sx1, sy1)) [row + 1..r - 1] = (t2, l2, (sx2, sy2))"
    by (metis prod.exhaust)
  have c2: "has_size t2 r c \<and>
    (\<forall>i j. 0 \<le> i \<and> i < r \<and> 0 \<le> j \<and> j < c \<and> (i < row \<or> (i = row \<and> j \<le> col))
        \<longrightarrow> mat_at t2 i j = mat_at t1 i j)"
    using rc c1 by (intro rows_frame [OF _ dims(1) _ _ _ _ f2]) auto
  have "taperHorizontal src = t2"
    by (simp add: taperHorizontal_split [OF dims rc] st f1 f2)
  then show ?thesis using c1 c2 ij by (simp add: st)
qed

section \<open>Zero runs in the horizontal pass\<close>

lemma scan_upto_nonzero:
  assumes "0 \<le> col" "mat_at src row col \<noteq> 0"
  shows "snd (snd (scan_upto src row (col + 1))) = (-1, -1)"
proof -
  obtain t l s where st: "scan_upto src row col = (t, l, s)" by (metis prod.exhaust)
  show ?thesis
    using hstep_nonzero [OF assms(2), of t l s] by (simp add: scan_upto_step [OF assms(1)] st)
qed

lemma scan_upto_zero_open:
  assumes "0 \<le> col" "mat_at src row col = 0" "col \<noteq> cols src - 1"
  shows "snd (snd (scan_upto src row (col + 1))) \<noteq> (-1, -1)"
proof -
  obtain t l s where st: "scan_upto src row col = (t, l, s)" by (metis prod.exhaust)
  show ?thesis
  proof (cases "s = (-1, -1)")
    case True
    then show ?thesis
      using assms(1) by (simp add: scan_upto_step [OF assms(1)] st hstep_open [OF assms(2)])
  next
    case False
    then show ?thesis
      by (simp add: scan_upto_step [OF assms(1)] st hstep_skip [OF assms(2,3) False])
  qed
qed

lemma scan_upto_last_col:
  assumes "0 \<le> col" "col = cols src - 1" "snd (snd (scan_upto src row col)) \<noteq> (-1, -1)"
  shows "snd (snd (scan_upto src row (col + 1))) = (-1, -1)"
proof -
  obtain t l s where st: "scan_upto src row col = (t, l, s)" by (metis prod.exhaust)
  then have "s \<noteq> (-1, -1)" using assms(3) by simp
  then have "snd (snd (hstep src row (t, l, s) col)) = (-1, -1)"
    using assms(2) by (simp add: hstep_def Let_def)
  then show ?thesis
    unfolding scan_upto_step [OF assms(1)] st .
qed

text \<open>
  No run is open when the scan reaches the column \<open>s\<close> of a row if the pixel before it is not
  zero or, for \<open>s = 0\<close>, if the row is the first one or the row before it does not end in a
  zero pixel that follows a nonzero pixel.
\<close>

lemma start_none:
  assumes "cols src = c" "0 \<le> row" "0 \<le> s"
    and "(0 < s \<and> mat_at src row (s - 1) \<noteq> 0) \<or>
         (s = 0 \<and> (row = 0 \<or> (0 < c \<and> mat_at src (row - 1) (c - 1) \<noteq> 0) \<or>
                   (2 \<le> c \<and> mat_at src (row - 1) (c - 2) = 0)))"
  shows "snd (snd (scan_upto src row s)) = (-1, -1)"
proof -
  consider (inner) "0 < s" "mat_at src row (s - 1) \<noteq> 0"
    | (first) "s = 0" "row = 0"
    | (prev) "s = 0" "0 < row" "0 < c" "mat_at src (row - 1) (c - 1) \<noteq> 0"
    | (prev2) "s = 0" "0 < row" "2 \<le> c" "mat_at src (row - 1) (c - 2) = 0"
    using assms(2,4) by fastforce
  then show ?thesis
  proof cases
    case inner
    then show ?thesis using scan_upto_nonzero [of "s - 1" src row] by simp
  next
    case first
    then show ?thesis by (simp add: scan_upto_start)
  next
    case prev
    have "scan_upto src row 0 = scan_upto src (row - 1) (c - 1 + 1)"
      using scan_upto_next_row [of "row - 1" src] prev(2) assms(1) by simp
    then show ?thesis
      using scan_upto_nonzero [of "c - 1" src "row - 1"] prev by simp
  next
    case prev2
    have e: "scan_upto src row 0 = scan_upto src (row - 1) (c - 1 + 1)"
      using scan_upto_next_row [of "row - 1" src] prev2(2) assms(1) by simp
    have "snd (snd (scan_upto src (row - 1) (c - 2 + 1))) \<noteq> (-1, -1)"
      using prev2(3,4) assms(1) by (intro scan_upto_zero_open) simp_all
    then have "snd (snd (scan_upto src (row - 1) (c - 1))) \<noteq> (-1, -1)"
      by (simp add: algebra_simps)
    then have "snd (snd (scan_upto src (row - 1) (c - 1 + 1))) = (-1, -1)"
      using prev2(3) assms(1) by (intro scan_upto_last_col) simp_all
    then show ?thesis using e prev2(1) by simp
  qed
qed

lemma run_state:
  assumes "cols src = c" "0 \<le> s" "s \<le> e" "e < c - 1"
    and "snd (snd (scan_upto src row s)) = (-1, -1)"
    and "\<forall>j. s \<le> j \<and> j \<le> e \<longrightarrow> mat_at src row j = 0"
  shows "scan_upto src row (e + 1) =
           (fst (scan_upto src row s), (if 0 < s then mat_at src row (s - 1) else 0), (s, row))"
  using assms(3,4,6)
proof (induction e rule: int_ge_induct)
  case base
  obtain t l where st: "scan_upto src row s = (t, l, (-1, -1))"
    using assms(5) by (metis prod.collapse)
  have "mat_at src row s = 0" using base by simp
  then show ?case
    by (simp add: scan_upto_step [OF assms(2)] st hstep_open)
next
  case (step e)
  have z: "mat_at src row (e + 1) = 0" using step.prems step.hyps by simp
  have ne: "e + 1 \<noteq> cols src - 1" "(s, row) \<noteq> (-1, -1)" "0 \<le> e + 1"
    using step.prems step.hyps assms(1,2) by auto
  have "scan_upto src row (e + 1) =
           (fst (scan_upto src row s), (if 0 < s then mat_at src row (s - 1) else 0), (s, row))"
    using step by simp
  then show ?case
    unfolding scan_upto_step [OF ne(3)] by (simp only: hstep_skip [OF z ne(1,2)])
qed

lemma run_result:
  assumes src: "has_size src r c" and row: "0 \<le> row" "row < r"
    and se: "0 \<le> s" "s \<le> e" "e + 1 < c"
    and start: "snd (snd (scan_upto src row s)) = (-1, -1)"
    and zeros: "\<forall>j. s \<le> j \<and> j \<le> e \<longrightarrow> mat_at src row j = 0"
    and tmn: "mat_at src row (e + 1) \<noteq> 0 \<or> e + 1 = c - 1"
    and j: "s \<le> j" "j \<le> e + 1"
  shows "mat_at (taperHorizontal src) row j =
           (if e + 1 - (e + 1 - s) div 2 \<le> j
            then (if e + 1 = c - 1
                  then (if s = 0 then mat_at src row (e + 1) else mat_at src row (s - 1))
                  else mat_at src row (e + 1))
            else (if s = 0 then mat_at src row (e + 1) else mat_at src row (s - 1)))"
proof -
  have dims: "cols src = c" using src by (simp add: has_size_def)
  define t where "t = fst (scan_upto src row s)"
  define l where "l = (if 0 < s then mat_at src row (s - 1) else 0)"
  have st: "scan_upto src row (e + 1) = (t, l, (s, row))"
    unfolding t_def l_def using se by (intro run_state [OF dims se(1,2) _ start zeros]) simp
  have t: "has_size t r c" unfolding t_def using src by (rule has_size_scan_upto)
  have e1: "0 \<le> e + 1" "s \<le> e + 1" using se by simp_all
  obtain t' where h: "hstep src row (t, l, (s, row)) (e + 1) =
        (t', (if s = 0 then mat_at src row (e + 1) else l), (-1, -1))"
    and px: "\<forall>i j. 0 \<le> i \<and> i < r \<and> 0 \<le> j \<and> j < c \<longrightarrow>
              mat_at t' i j =
                (if i = row \<and> e + 1 - (e + 1 - s) div 2 \<le> j \<and> j \<le> e + 1
                 then (if e + 1 = c - 1 then (if s = 0 then mat_at src row (e + 1) else l)
                       else mat_at src row (e + 1))
                 else if i = row \<and> s \<le> j \<and> j < e + 1 - (e + 1 - s) div 2
                 then (if s = 0 then mat_at src row (e + 1) else l)
                 else mat_at t i j)"
    using hstep_close [OF t dims se(1) e1(2) tmn, of l] by blast
  have nxt: "scan_upto src row (e + 1 + 1) =
        (t', (if s = 0 then mat_at src row (e + 1) else l), (-1, -1))"
    unfolding scan_upto_step [OF e1(1)] st by (rule h)
  have jr: "0 \<le> j" "j < c" using j se by simp_all
  have "mat_at (taperHorizontal src) row j = mat_at t' row j"
    using final_pixel [OF src row e1(1) se(3) _ row jr] j nxt by simp
  also have "\<dots> = (if e + 1 - (e + 1 - s) div 2 \<le> j
            then (if e + 1 = c - 1 then (if s = 0 then mat_at src row (e + 1) else l)
                  else mat_at src row (e + 1))
            else (if s = 0 then mat_at src row (e + 1) else l))"
    using px row jr j by simp
  finally show ?thesis using se by (simp add: l_def)
qed

section \<open>The invariant of the horizontal pass\<close>

lemma scan_upto_induct:
  assumes c: "cols src = c"
    and init: "I 0 0 (src, 0, (-1, -1))"
    and step: "\<And>row col st. 0 \<le> row \<Longrightarrow> 0 \<le> col \<Longrightarrow> col < c \<Longrightarrow> I row col st
                 \<Longrightarrow> I row (col + 1) (hstep src row st col)"
    and nxt: "\<And>row st. 0 \<le> row \<Longrightarrow> I row c st \<Longrightarrow> I (row + 1) 0 st"
    and rc: "0 \<le> row" "0 \<le> col" "col \<le> c"
  shows "I row col (scan_upto src row col)"
  using rc
proof (induction row arbitrary: col rule: int_ge_induct)
  case base
  from base(1,2) show ?case
  proof (induction col rule: int_ge_induct)
    case base
    then show ?case using init by (simp add: scan_upto_start)
  next
    case (step i)
    have "I 0 (i + 1) (hstep src 0 (scan_upto src 0 i) i)"
      using step by (intro assms(3)) simp_all
    then show ?case by (simp only: scan_upto_step [OF step.hyps(1)])
  qed
next
  case (step row)
  have c0: "0 \<le> c" using c by (auto simp: cols_def split: list.splits)
  have r0: "I (row + 1) 0 (scan_upto src (row + 1) 0)"
    using nxt [OF step.hyps, of "scan_upto src row c"] step.IH [of c] c0
    by (simp add: scan_upto_next_row [OF step.hyps] c)
  have row1: "0 \<le> row + 1" using step.hyps by simp
  from step.prems r0 show ?case
  proof (induction col rule: int_ge_induct)
    case base
    then show ?case by simp
  next
    case (step i)
    have "I (row + 1) (i + 1) (hstep src (row + 1) (scan_upto src (row + 1) i) i)"
      using step row1 by (intro assms(3)) simp_all
    then show ?case by (simp only: scan_upto_step [OF step.hyps(1)])
  qed
qed

lemma hstep_cases3:
  obtains (keep) "hstep src row (t, l, (sx, sy)) col = (t, l, (sx, sy))"
  | (opened) "hstep src row (t, l, (sx, sy)) col =
         (t, (if 0 < col then mat_at src row (col - 1) else 0), (col, row))"
  | (closed) L V where "(sx, sy) \<noteq> (-1, -1)"
      "hstep src row (t, l, (sx, sy)) col =
         (fillPixel (fillPixel t (sx, sy)
                      (col - (col - sx) sdiv 2, row - (row - sy) sdiv 2) L)
            (col - (col - sx) sdiv 2, row - (row - sy) sdiv 2) (col, row) V, L, (-1, -1))"
proof -
  consider (a) "(sx, sy) \<noteq> (-1, -1)" "0 < mat_at src row col \<or> col = cols src - 1"
    | (b) "(sx, sy) \<noteq> (-1, -1)" "\<not> (0 < mat_at src row col \<or> col = cols src - 1)"
    | (c) "(sx, sy) = (-1, -1)" "mat_at src row col \<le> 0"
    | (d) "(sx, sy) = (-1, -1)" "\<not> mat_at src row col \<le> 0"
    by blast
  then show thesis
  proof cases
    case a
    then show ?thesis by (intro closed) (simp_all add: hstep_def Let_def)
  next
    case b
    then show ?thesis by (intro keep) (simp add: hstep_def Let_def)
  next
    case c
    then show ?thesis by (intro opened) (simp add: hstep_def Let_def)
  next
    case d
    then show ?thesis by (intro keep) (simp add: hstep_def Let_def)
  qed
qed

lemma scan_inv_step:
  assumes src: "has_size src r c" and rc: "0 \<le> row" "row < r" "0 \<le> col" "col < c"
    and inv: "scan_inv src row col st"
  shows "scan_inv src row (col + 1) (hstep src row st col)"
proof -
  obtain t l sx sy where st: "st = (t, l, (sx, sy))" by (metis prod.exhaust)
  have d: "rows src = r" "cols src = c" using src by (simp_all add: has_size_def)
  have t: "has_size t r c"
    and sr: "(sx, sy) = (-1, -1) \<or> (0 \<le> sx \<and> sx < c \<and> 0 \<le> sy \<and> sy \<le> row \<and>
          l = (if 0 < sx then mat_at src sy (sx - 1) else 0))"
    and un: "\<And>i j. 0 \<le> i \<Longrightarrow> i < r \<Longrightarrow> 0 \<le> j \<Longrightarrow> j < c \<Longrightarrow> row < i \<or> (row = i \<and> col \<le> j)
               \<Longrightarrow> mat_at t i j = mat_at src i j"
    using inv by (simp_all add: scan_inv_def st d cong: if_cong)
  show ?thesis
  proof (cases rule: hstep_cases3 [of src row t l sx sy col])
    case keep
    show ?thesis
      unfolding st keep scan_inv_def using t sr un by (auto simp: d cong: if_cong)
  next
    case opened
    show ?thesis
      unfolding st opened scan_inv_def using t un rc by (auto simp: d cong: if_cong)
  next
    case (closed L V)
    define ex ey where "ex = col - (col - sx) sdiv 2" and "ey = row - (row - sy) sdiv 2"
    define t1 where "t1 = fillPixel t (sx, sy) (ex, ey) L"
    define t2 where "t2 = fillPixel t1 (ex, ey) (col, row) V"
    have h: "hstep src row (t, l, (sx, sy)) col = (t2, L, (-1, -1))"
      using closed(2) by (simp add: t2_def t1_def ex_def ey_def)
    have s1: "has_size t1 r c" unfolding t1_def using t by (rule has_size_fillPixel)
    have s2: "has_size t2 r c" unfolding t2_def using s1 by (rule has_size_fillPixel)
    have b: "0 \<le> sx \<and> sx < c \<and> 0 \<le> sy \<and> sy \<le> row" using sr closed(1) by blast
    have "mat_at t2 i j = mat_at src i j"
      if ij: "0 \<le> i" "i < r" "0 \<le> j" "j < c" and gt: "row < i \<or> (row = i \<and> col + 1 \<le> j)" for i j
    proof -
      have n1: "\<not> (sy \<le> i \<and> i \<le> ey \<and> sx \<le> j \<and> j \<le> ex)"
        using b gt unfolding ex_def ey_def sdiv2 by (auto split: if_splits)
      have n2: "\<not> (ey \<le> i \<and> i \<le> row \<and> ex \<le> j \<and> j \<le> col)"
        using b gt by auto
      have "mat_at t2 i j = mat_at t i j"
        unfolding t2_def t1_def mat_at_fillPixel [OF s1 [unfolded t1_def] ij] mat_at_fillPixel [OF t ij]
        using n1 n2 by (simp only: if_False)
      also have "\<dots> = mat_at src i j" using un [OF ij] gt by auto
      finally show ?thesis .
    qed
    then show ?thesis
      unfolding st h scan_inv_def using s2 by (simp add: d cong: if_cong)
  qed
qed

lemma scan_inv_scan_upto:
  assumes "has_size src r c" "0 \<le> row" "row < r" "0 \<le> col" "col \<le> c"
  shows "scan_inv src row col (scan_upto src row col)"
proof -
  have d: "rows src = r" "cols src = c" using assms(1) by (simp_all add: has_size_def)
  have "row < r \<longrightarrow> scan_inv src row col (scan_upto src row col)"
  proof (rule scan_upto_induct [where I = "\<lambda>row col st. row < r \<longrightarrow> scan_inv src row col st", OF d(2)])
    show "0 < r \<longrightarrow> scan_inv src 0 0 (src, 0, (-1, -1))"
      using assms(1) by (simp add: scan_inv_def d)
    show "row < r \<longrightarrow> scan_inv src row (col + 1) (hstep src row st col)"
      if "0 \<le> row" "0 \<le> col" "col < c" "row < r \<longrightarrow> scan_inv src row col st" for row col st
      using that scan_inv_step [OF assms(1) that(1) _ that(2,3), of st] by blast
    show "row + 1 < r \<longrightarrow> scan_inv src (row + 1) 0 st"
      if "0 \<le> row" "row < r \<longrightarrow> scan_inv src row c st" for row st
    proof
      assume "row + 1 < r"
      then have "scan_inv src row c st" using that by simp
      then show "scan_inv src (row + 1) 0 st"
        by (cases st) (auto simp: scan_inv_def d cong: if_cong)
    qed
  qed (use assms in simp_all)
  then show ?thesis using assms(3) by simp
qed




text \<open>
  All the pixels that the horizontal pass writes lie inside the image: when a run is closed
  at the pixel \<open>(row, col)\<close>, the start of the run and the midpoint are positions of the image,
  and so are the two rectangles between them and \<open>(col, row)\<close>.
\<close>

lemma horizontal_fills_in_range:
  assumes "has_size src r c" "0 \<le> row" "row < r" "0 \<le> col" "col < c"
    and "scan_upto src row col = (t, l, (sx, sy))" "(sx, sy) \<noteq> (-1, -1)"
  shows "0 \<le> sx \<and> sx < c \<and> 0 \<le> sy \<and> sy < r \<and>
         0 \<le> col - (col - sx) sdiv 2 \<and> col - (col - sx) sdiv 2 < c \<and>
         0 \<le> row - (row - sy) sdiv 2 \<and> row - (row - sy) sdiv 2 < r"
proof -
  have d: "rows src = r" "cols src = c" using assms(1) by (simp_all add: has_size_def)
  have "scan_inv src row col (t, l, (sx, sy))"
    using scan_inv_scan_upto [OF assms(1,2,3,4)] assms(5,6) by simp
  then have "0 \<le> sx \<and> sx < c \<and> 0 \<le> sy \<and> sy \<le> row"
    using assms(7) by (auto simp: scan_inv_def d cong: if_cong)
  then show ?thesis
    using assms(2-5) unfolding sdiv2 by (auto split: if_splits)
qed

section \<open>The claims on the horizontal pass\<close>

text \<open>
  Claim C4, as the code has it.  In the horizontal pass, a run of zero pixels in the columns
  \<open>s\<close> to \<open>e\<close> of a row, with a nonzero pixel immediately left of \<open>s\<close> and a nonzero pixel
  immediately right of \<open>e\<close> that is not in the last column, is filled with the left
  neighbour's value in the columns \<open>s\<close> to \<open>m = e - (e - s + 1) / 2\<close> and with the right
  neighbour's value in the columns \<open>m + 1\<close> to \<open>e\<close>.
\<close>

theorem horizontal_run_split:
  assumes "has_size src r c" "0 \<le> row" "row < r" "0 < s" "s \<le> e" "e + 1 < c - 1"
    and "mat_at src row (s - 1) \<noteq> 0"
    and "\<forall>j. s \<le> j \<and> j \<le> e \<longrightarrow> mat_at src row j = 0"
    and "mat_at src row (e + 1) \<noteq> 0"
  shows "\<forall>j. s \<le> j \<and> j \<le> e \<longrightarrow>
           mat_at (taperHorizontal src) row j =
             (if j \<le> e - (e - s + 1) div 2 then mat_at src row (s - 1)
              else mat_at src row (e + 1))"
proof (intro allI impI)
  fix j assume j: "s \<le> j \<and> j \<le> e"
  have c: "cols src = c" using assms(1) by (simp add: has_size_def)
  have st: "snd (snd (scan_upto src row s)) = (-1, -1)"
    using assms(4,7) by (intro start_none [OF c assms(2)]) auto
  have s0: "0 \<le> s" "e + 1 < c" "s \<noteq> 0" "e + 1 \<noteq> c - 1" "j \<le> e + 1" using assms(4,6) j by simp_all
  have m: "e + 1 - (e + 1 - s) div 2 \<le> j \<longleftrightarrow> \<not> j \<le> e - (e - s + 1) div 2"
    by (auto simp: algebra_simps)
  show "mat_at (taperHorizontal src) row j =
             (if j \<le> e - (e - s + 1) div 2 then mat_at src row (s - 1)
              else mat_at src row (e + 1))"
    unfolding run_result [OF assms(1,2,3) s0(1) assms(5) s0(2) st assms(8) disjI1 [OF assms(9)] conjunct1 [OF j] s0(5)] m
    using s0(3,4) by simp
qed


theorem horizontal_run_split_witness:
  "has_size [[1, 2, 3, 4, 5, 0], [5, 0, 0, 0, 9, 1 :: 8 word]] 2 6 \<and>
   mat_at [[1, 2, 3, 4, 5, 0], [5, 0, 0, 0, 9, 1 :: 8 word]] 1 0 \<noteq> 0 \<and>
   mat_at [[1, 2, 3, 4, 5, 0], [5, 0, 0, 0, 9, 1 :: 8 word]] 1 1 = 0 \<and>
   mat_at [[1, 2, 3, 4, 5, 0], [5, 0, 0, 0, 9, 1 :: 8 word]] 1 2 = 0 \<and>
   mat_at [[1, 2, 3, 4, 5, 0], [5, 0, 0, 0, 9, 1 :: 8 word]] 1 3 = 0 \<and>
   mat_at [[1, 2, 3, 4, 5, 0], [5, 0, 0, 0, 9, 1 :: 8 word]] 1 4 \<noteq> 0 \<and>
   mat_at (taperHorizontal [[1, 2, 3, 4, 5, 0], [5, 0, 0, 0, 9, 1]]) 1 1 = 5 \<and>
   mat_at (taperHorizontal [[1, 2, 3, 4, 5, 0], [5, 0, 0, 0, 9, 1]]) 1 2 = 5 \<and>
   mat_at (taperHorizontal [[1, 2, 3, 4, 5, 0], [5, 0, 0, 0, 9, 1]]) 1 3 = 9"
proof -
  let ?W = "[[1, 2, 3, 4, 5, 0], [5, 0, 0, 0, 9, 1 :: 8 word]]"
  have h: "has_size ?W 2 6"
    by (simp add: has_size_def rows_def cols_def mat_ok_def)
  have n: "mat_at ?W 1 (1 - 1) \<noteq> 0" "mat_at ?W 1 (3 + 1) \<noteq> 0"
    by (simp_all add: mat_at_def)
  have z: "\<forall>j. 1 \<le> j \<and> j \<le> 3 \<longrightarrow> mat_at ?W 1 j = 0"
  proof (intro allI impI)
    fix j :: int assume "1 \<le> j \<and> j \<le> 3"
    then have "j = 1 \<or> j = 2 \<or> j = 3" by arith
    then show "mat_at ?W 1 j = 0" by (auto simp: mat_at_def)
  qed
  have t: "\<forall>j. 1 \<le> j \<and> j \<le> 3 \<longrightarrow>
           mat_at (taperHorizontal ?W) 1 j =
             (if j \<le> 3 - (3 - 1 + 1) div 2 then mat_at ?W 1 (1 - 1) else mat_at ?W 1 (3 + 1))"
    by (rule horizontal_run_split [OF h _ _ _ _ _ n(1) z n(2)]) simp_all
  have "mat_at (taperHorizontal ?W) 1 1 = 5" "mat_at (taperHorizontal ?W) 1 2 = 5"
    "mat_at (taperHorizontal ?W) 1 3 = 9"
    using t [rule_format, of 1] t [rule_format, of 2] t [rule_format, of 3]
    by (simp_all add: mat_at_def)
  then show ?thesis using h n z by simp
qed

theorem horizontal_run_split_counterexample:
  "taperHorizontal [[5, 0, 0, 0, 9]] = [[5, 5, 5, 5, 5]] \<and>
   taperHorizontal [[5, 0, 0, 9, 7]] = [[5, 5, 9, 9, 7]]"
  by code_simp

text \<open>
  Claim C5, as the code has it.  When no run is open as the scan enters the row (the row is
  the first one, or the row before it does not end in a zero pixel that follows a nonzero
  pixel), a run of zero pixels that starts at column 0 and is ended by a nonzero pixel is
  filled, in its first half as in its second, with the value of that pixel; a row of at
  least two pixels that is zero throughout stays zero.
\<close>

theorem left_border_run:
  assumes "has_size src r c" "0 \<le> row" "row < r"
    and "row = 0 \<or> mat_at src (row - 1) (c - 1) \<noteq> 0 \<or>
         (2 \<le> c \<and> mat_at src (row - 1) (c - 2) = 0)"
  shows "(0 \<le> e \<and> e + 1 < c \<and> (\<forall>j. 0 \<le> j \<and> j \<le> e \<longrightarrow> mat_at src row j = 0) \<and>
            mat_at src row (e + 1) \<noteq> 0
          \<longrightarrow> (\<forall>j. 0 \<le> j \<and> j \<le> e \<longrightarrow>
                 mat_at (taperHorizontal src) row j = mat_at src row (e + 1))) \<and>
         (2 \<le> c \<and> (\<forall>j. 0 \<le> j \<and> j < c \<longrightarrow> mat_at src row j = 0)
          \<longrightarrow> (\<forall>j. 0 \<le> j \<and> j < c \<longrightarrow> mat_at (taperHorizontal src) row j = 0))"
proof (intro conjI impI allI)
  have c: "cols src = c" using assms(1) by (simp add: has_size_def)
  have st: "snd (snd (scan_upto src row 0)) = (-1, -1)" if "0 < c"
    using assms(4) that by (intro start_none [OF c assms(2)]) auto
  {
    fix j
    assume a: "0 \<le> e \<and> e + 1 < c \<and> (\<forall>j. 0 \<le> j \<and> j \<le> e \<longrightarrow> mat_at src row j = 0) \<and>
            mat_at src row (e + 1) \<noteq> 0" and j: "0 \<le> j \<and> j \<le> e"
    have "0 < c" using a by simp
    note r = run_result [OF assms(1,2,3) order_refl _ _ st [OF this], of e j]
    show "mat_at (taperHorizontal src) row j = mat_at src row (e + 1)"
      using r a j by simp
  next
    fix j
    assume a: "2 \<le> c \<and> (\<forall>j. 0 \<le> j \<and> j < c \<longrightarrow> mat_at src row j = 0)" and j: "0 \<le> j \<and> j < c"
    have "0 < c" using a by simp
    note r = run_result [OF assms(1,2,3) order_refl _ _ st [OF this], of "c - 2" j]
    show "mat_at (taperHorizontal src) row j = 0"
      using r a j by simp
  }
qed


theorem left_border_run_witness:
  "has_size [[0, 0, 7, 3], [0, 0, 0, 0 :: 8 word]] 2 4 \<and>
   mat_at [[0, 0, 7, 3], [0, 0, 0, 0 :: 8 word]] 0 0 = 0 \<and>
   mat_at [[0, 0, 7, 3], [0, 0, 0, 0 :: 8 word]] 0 1 = 0 \<and>
   mat_at [[0, 0, 7, 3], [0, 0, 0, 0 :: 8 word]] 0 2 \<noteq> 0 \<and>
   mat_at (taperHorizontal [[0, 0, 7, 3], [0, 0, 0, 0]]) 0 0 = 7 \<and>
   mat_at (taperHorizontal [[0, 0, 7, 3], [0, 0, 0, 0]]) 0 1 = 7 \<and>
   mat_at [[0, 0, 7, 3], [0, 0, 0, 0 :: 8 word]] 0 3 \<noteq> 0 \<and>
   mat_at [[0, 0, 7, 3], [0, 0, 0, 0 :: 8 word]] 1 0 = 0 \<and>
   mat_at [[0, 0, 7, 3], [0, 0, 0, 0 :: 8 word]] 1 1 = 0 \<and>
   mat_at [[0, 0, 7, 3], [0, 0, 0, 0 :: 8 word]] 1 2 = 0 \<and>
   mat_at [[0, 0, 7, 3], [0, 0, 0, 0 :: 8 word]] 1 3 = 0 \<and>
   mat_at (taperHorizontal [[0, 0, 7, 3], [0, 0, 0, 0]]) 1 0 = 0 \<and>
   mat_at (taperHorizontal [[0, 0, 7, 3], [0, 0, 0, 0]]) 1 3 = 0"
proof -
  let ?W = "[[0, 0, 7, 3], [0, 0, 0, 0 :: 8 word]]"
  have h: "has_size ?W 2 4"
    by (simp add: has_size_def rows_def cols_def mat_ok_def)
  have n: "mat_at ?W 0 (1 + 1) \<noteq> 0" "mat_at ?W (1 - 1) (4 - 1) \<noteq> 0"
    by (simp_all add: mat_at_def)
  have z0: "\<forall>j. 0 \<le> j \<and> j \<le> 1 \<longrightarrow> mat_at ?W 0 j = 0"
  proof (intro allI impI)
    fix j :: int assume "0 \<le> j \<and> j \<le> 1"
    then have "j = 0 \<or> j = 1" by arith
    then show "mat_at ?W 0 j = 0" by (auto simp: mat_at_def)
  qed
  have z1: "\<forall>j. 0 \<le> j \<and> j < 4 \<longrightarrow> mat_at ?W 1 j = 0"
  proof (intro allI impI)
    fix j :: int assume "0 \<le> j \<and> j < 4"
    then have "j = 0 \<or> j = 1 \<or> j = 2 \<or> j = 3" by arith
    then show "mat_at ?W 1 j = 0" by (auto simp: mat_at_def)
  qed
  have a: "\<forall>j. 0 \<le> j \<and> j \<le> 1 \<longrightarrow> mat_at (taperHorizontal ?W) 0 j = mat_at ?W 0 (1 + 1)"
    using left_border_run [of ?W 2 4 0 1, THEN conjunct1] h z0 n(1) by simp
  have b: "\<forall>j. 0 \<le> j \<and> j < 4 \<longrightarrow> mat_at (taperHorizontal ?W) 1 j = 0"
    using left_border_run [of ?W 2 4 1 0, THEN conjunct2] h z1 n(2) by simp
  have "mat_at (taperHorizontal ?W) 0 0 = 7" "mat_at (taperHorizontal ?W) 0 1 = 7"
    "mat_at (taperHorizontal ?W) 1 0 = 0" "mat_at (taperHorizontal ?W) 1 3 = 0"
    using a [rule_format, of 0] a [rule_format, of 1] b [rule_format, of 0] b [rule_format, of 3]
    by (simp_all add: mat_at_def)
  then show ?thesis using h n z0 z1 by simp
qed

theorem left_border_run_counterexample:
  "taperHorizontal [[0, 0, 7, 3]] = [[7, 7, 7, 3]]"
  by code_simp





section \<open>The final restoration inside the mask\<close>

lemma has_size_vstep:
  assumes "has_size t r c"
  shows "has_size (fst (vstep src col (t, l, s) row)) r c"
  using assms by (simp add: vstep_def Let_def has_size_fillPixel)

lemma has_size_foldl_step:
  assumes "\<And>t l s a. has_size t r c \<Longrightarrow> has_size (fst (f (t, l, s) a)) r c"
    and "has_size (fst st) r c"
  shows "has_size (fst (foldl f st cs)) r c"
  using assms(2)
proof (induction cs arbitrary: st)
  case Nil
  then show ?case by simp
next
  case (Cons a cs)
  obtain t l s where st: "st = (t, l, s)" by (metis prod.exhaust)
  have "has_size (fst (f st a)) r c"
    using Cons.prems assms(1) [of t l s a] by (simp add: st)
  then show ?case using Cons.IH by simp
qed

lemma has_size_foldl_nested:
  assumes "\<And>k t l s a. has_size t r c \<Longrightarrow> has_size (fst (f k (t, l, s) a)) r c"
    and "has_size (fst st) r c"
  shows "has_size (fst (foldl (\<lambda>st k. foldl (f k) st cs) st ks)) r c"
  using assms(2)
proof (induction ks arbitrary: st)
  case Nil
  then show ?case by simp
next
  case (Cons k ks)
  have "has_size (fst (foldl (f k) st cs)) r c"
    using assms(1) Cons.prems by (rule has_size_foldl_step)
  then show ?case using Cons.IH by simp
qed

lemma has_size_taperHorizontal:
  "has_size src r c \<Longrightarrow> has_size (taperHorizontal src) r c"
  by (simp add: taperHorizontal_scan_upto has_size_scan_upto)

lemma has_size_taperVertical:
  "has_size src r c \<Longrightarrow> has_size (taperVertical src) r c"
  unfolding taperVertical_def
  by (rule has_size_foldl_nested [of r c "vstep src"]) (simp_all add: has_size_vstep)

lemma has_size_tabulate_gen:
  assumes "has_size src r c"
  shows "has_size (tabulate r c f) r c"
proof (cases "src = []")
  case True
  then show ?thesis using assms by (auto simp: has_size_def tabulate_def rows_def cols_def mat_ok_def)
next
  case False
  then have "1 \<le> r" using assms by (cases src) (auto simp: has_size_def rows_def)
  then show ?thesis using has_size_nonneg [OF assms] by (simp add: has_size_tabulate)
qed

lemma copyTo_masked_result:
  assumes "has_size src r c" "has_size msk r c"
  shows "\<exists>d. copyTo_masked src dst msk = Inr d \<and> has_size d r c \<and>
           (\<forall>row col. 0 \<le> row \<and> row < r \<and> 0 \<le> col \<and> col < c \<and> mat_at msk row col \<noteq> 0
               \<longrightarrow> mat_at d row col = mat_at src row col)"
proof -
  have d: "rows src = r" "cols src = c" "rows msk = r" "cols msk = c"
    using assms by (simp_all add: has_size_def)
  define dst0 where "dst0 = (if same_size dst src then dst else tabulate r c (\<lambda>row col. 0))"
  define d where "d = tabulate r c (\<lambda>row col. if mat_at msk row col \<noteq> 0 then mat_at src row col
                                 else mat_at dst0 row col)"
  have "copyTo_masked src dst msk = Inr d"
    by (simp add: copyTo_masked_def same_size_def d Let_def d_def dst0_def cong: if_cong)
  moreover have "has_size d r c" unfolding d_def using assms(1) by (rule has_size_tabulate_gen)
  moreover have "mat_at d row col = mat_at src row col"
    if "0 \<le> row \<and> row < r \<and> 0 \<le> col \<and> col < c \<and> mat_at msk row col \<noteq> 0" for row col
    using that by (simp add: d_def mat_at_tabulate)
  ultimately show ?thesis by blast
qed

text \<open>The third pass writes \<open>dst\<close> only, and keeps its size.\<close>

lemma mstep_frame:
  assumes "has_size (fst st dst) r c \<and> (\<forall>a. a \<noteq> dst \<longrightarrow> fst st a = h a)"
  shows "has_size (fst (mstep src dst msk row st col) dst) r c \<and>
         (\<forall>a. a \<noteq> dst \<longrightarrow> fst (mstep src dst msk row st col) a = h a)"
proof -
  obtain g l s where st: "st = (g, l, s)" by (metis prod.exhaust)
  show ?thesis using assms by (simp add: st mstep_def Let_def has_size_fillPixel)
qed

lemma fillMask_frame:
  assumes "has_size (h dst) r c"
  shows "has_size (fillMask src dst msk h dst) r c \<and>
         (\<forall>a. a \<noteq> dst \<longrightarrow> fillMask src dst msk h a = h a)"
  unfolding fillMask_def
  by (rule foldl_invariant
        [where P = "\<lambda>st. has_size (fst st dst) r c \<and> (\<forall>a. a \<noteq> dst \<longrightarrow> fst st a = h a)"],
      rule foldl_invariant
        [where P = "\<lambda>st. has_size (fst st dst) r c \<and> (\<forall>a. a \<noteq> dst \<longrightarrow> fst st a = h a)"],
      rule mstep_frame) (simp_all add: assms)

lemma fillMask_other:
  assumes "a \<noteq> dst"
  shows "fillMask src dst msk h a = h a"
  unfolding fillMask_def using assms
  by (intro foldl_invariant [where P = "\<lambda>st. fst st a = h a", rule_format])
     (auto simp: mstep_def Let_def split: prod.splits)

text \<open>
  Claim C6, as the code has it.  The call is made in a store \<open>h\<close> in which the source and the
  mask have the same size, with an output image \<open>dst\<close> that is another object than the
  source and than the mask, sharing no pixel with them.  Whatever the guide image and whatever the library's blend and
  blur compute: every pixel of \<open>dst\<close> after the call at which the mask is not zero is the
  pixel of the source, and no other image of the store is changed.  The call returns when
  the guide image has the size of the source and the library functions keep sizes.
\<close>

theorem edgeTaper_restores_mask:
  assumes "has_size (h src) r c" "has_size (h msk) r c" "dst \<noteq> src" "dst \<noteq> msk"
  shows "(\<forall>h'. edgeTaper lib h src dst msk img = Inr h' \<longrightarrow>
            (\<forall>row col. 0 \<le> row \<and> row < r \<and> 0 \<le> col \<and> col < c \<and> mat_at (h msk) row col \<noteq> 0
                \<longrightarrow> mat_at (h' dst) row col = mat_at (h src) row col) \<and>
            (\<forall>a. a \<noteq> dst \<longrightarrow> h' a = h a)) \<and>
         (lib_ok lib \<and> has_size (h img) r c \<longrightarrow>
            (\<exists>h'. edgeTaper lib h src dst msk img = Inr h' \<and> has_size (h' dst) r c))"
proof -
  have ss: "same_size (h msk) (h src)" using assms by (simp add: same_size_def has_size_def)
  define h1 where "h1 = h(dst := addWeighted lib (taperHorizontal (h src)) 0.5
                                    (taperVertical (h src)) 0.5 0.0)"
  define h2 where "h2 = fillMask src dst msk h1"
  define imageGauss where "imageGauss = GaussianBlur lib (h2 img) 19"
  define h3 where "h3 = h2(dst := addWeighted lib (h2 dst) 0.7 imageGauss 0.3 0.0)"
  define h4 where "h4 = h3(dst := GaussianBlur lib (h3 dst) 51)"
  have e: "edgeTaper lib h src dst msk img =
      (if \<not> same_size (h2 dst) imageGauss then Inl CvError
       else case copyTo_masked (h4 src) (h4 dst) (h4 msk) of
              Inl e \<Rightarrow> Inl e | Inr d \<Rightarrow> Inr (h4(dst := d)))"
    by (simp only: edgeTaper_def Let_def h1_def h2_def imageGauss_def h3_def h4_def ss
          not_True_eq_False if_False)
  have f2: "h2 a = h1 a" if "a \<noteq> dst" for a
    unfolding h2_def using that by (rule fillMask_other)
  have f4: "h4 a = h a" if "a \<noteq> dst" for a
    using that by (simp add: h4_def h3_def f2 h1_def)
  have s4: "h4 src = h src" "h4 msk = h msk" using assms(3,4) f4 by auto
  obtain d where d: "copyTo_masked (h src) (h4 dst) (h msk) = Inr d" "has_size d r c"
    "\<forall>row col. 0 \<le> row \<and> row < r \<and> 0 \<le> col \<and> col < c \<and> mat_at (h msk) row col \<noteq> 0
               \<longrightarrow> mat_at d row col = mat_at (h src) row col"
    using copyTo_masked_result [OF assms(1,2), of "h4 dst"] by blast
  have e2: "edgeTaper lib h src dst msk img =
      (if \<not> same_size (h2 dst) imageGauss then Inl CvError else Inr (h4(dst := d)))"
    by (simp add: e s4 d(1))
  show ?thesis
  proof (intro conjI allI impI)
    fix h' row col
    assume r: "edgeTaper lib h src dst msk img = Inr h'"
      and rc: "0 \<le> row \<and> row < r \<and> 0 \<le> col \<and> col < c \<and> mat_at (h msk) row col \<noteq> 0"
    have "h' = h4(dst := d)" using r e2 by (simp split: if_splits)
    then show "mat_at (h' dst) row col = mat_at (h src) row col" using d(3) rc by simp
  next
    fix h' a
    assume r: "edgeTaper lib h src dst msk img = Inr h'" and a: "a \<noteq> dst"
    have "h' = h4(dst := d)" using r e2 by (simp split: if_splits)
    then show "h' a = h a" using a f4 by simp
  next
    assume ok: "lib_ok lib \<and> has_size (h img) r c"
    have "has_size (h1 dst) r c"
      using ok has_size_taperHorizontal [OF assms(1)] by (simp add: lib_ok_def h1_def)
    then have d2: "has_size (h2 dst) r c"
      unfolding h2_def using fillMask_frame by blast
    have "has_size (h2 img) r c"
    proof (cases "img = dst")
      case True
      then show ?thesis using d2 by simp
    next
      case False
      then show ?thesis using ok by (simp add: f2 h1_def)
    qed
    then have "has_size imageGauss r c"
      unfolding imageGauss_def using ok by (simp add: lib_ok_def)
    then have "same_size (h2 dst) imageGauss"
      using d2 by (simp add: same_size_def has_size_def)
    then show "\<exists>h'. edgeTaper lib h src dst msk img = Inr h' \<and> has_size (h' dst) r c"
      using e2 d(2) by simp
  qed
qed

theorem edgeTaper_restores_mask_witness:
  "has_size ((no_images(0 := [[5, 0], [3, 4]], 1 := [[1, 0], [0, 1]], 2 := [[9, 9], [9, 9]])) 0) 2 2 \<and>
   has_size ((no_images(0 := [[5, 0], [3, 4]], 1 := [[1, 0], [0, 1]], 2 := [[9, 9], [9, 9]])) 1) 2 2 \<and>
   has_size ((no_images(0 := [[5, 0], [3, 4]], 1 := [[1, 0], [0, 1]], 2 := [[9, 9], [9, 9]])) 2) 2 2 \<and>
   (3 :: addr) \<noteq> 0 \<and> (3 :: addr) \<noteq> 1 \<and>
   lib_ok \<lparr>addWeighted = (\<lambda>a al b be ga. a), GaussianBlur = (\<lambda>a k. a)\<rparr> \<and>
   (\<exists>h'. edgeTaper \<lparr>addWeighted = (\<lambda>a al b be ga. a), GaussianBlur = (\<lambda>a k. a)\<rparr>
            (no_images(0 := [[5, 0], [3, 4]], 1 := [[1, 0], [0, 1]], 2 := [[9, 9], [9, 9]]))
            0 3 1 2 = Inr h' \<and>
          mat_at (h' 3) 0 0 = 5 \<and> mat_at (h' 3) 1 1 = 4 \<and> h' 0 = [[5, 0], [3, 4]])"
proof -
  let ?lib = "\<lparr>addWeighted = (\<lambda>a al b be ga. a), GaussianBlur = (\<lambda>a k. a)\<rparr>"
  let ?src = "[[5, 0], [3, 4 :: 8 word]]"
  let ?msk = "[[1, 0], [0, 1 :: 8 word]]"
  let ?img = "[[9, 9], [9, 9 :: 8 word]]"
  let ?h = "no_images(0 := ?src, 1 := ?msk, 2 := ?img)"
  have v: "?h 0 = ?src" "?h 1 = ?msk" "?h 2 = ?img" by simp_all
  have h: "has_size (?h 0) 2 2" "has_size (?h 1) 2 2" "has_size (?h 2) 2 2"
    by (simp_all add: has_size_def rows_def cols_def mat_ok_def)
  have l: "lib_ok ?lib" by (simp add: lib_ok_def)
  have n: "(3 :: addr) \<noteq> 0" "(3 :: addr) \<noteq> 1" by simp_all
  note t = edgeTaper_restores_mask [OF h(1,2) n, of ?lib 2]
  obtain h' where d: "edgeTaper ?lib ?h 0 3 1 2 = Inr h'"
    using t l h(3) by blast
  have p: "mat_at (h' 3) row col = mat_at (?h 0) row col"
    if "0 \<le> row \<and> row < 2 \<and> 0 \<le> col \<and> col < 2 \<and> mat_at (?h 1) row col \<noteq> 0" for row col
    using t d that by blast
  have "mat_at (h' 3) 0 0 = mat_at (?h 0) 0 0" "mat_at (h' 3) 1 1 = mat_at (?h 0) 1 1"
    by (rule p, simp add: mat_at_def)+
  then have q: "mat_at (h' 3) 0 0 = 5 \<and> mat_at (h' 3) 1 1 = 4" by (simp add: mat_at_def)
  have "\<forall>a. a \<noteq> 3 \<longrightarrow> h' a = ?h a" using t d by blast
  then have "h' 0 = ?h 0" by (rule allE [of _ 0]) simp
  then have "h' 0 = ?src" by simp
  then have "\<exists>h'. edgeTaper ?lib ?h 0 3 1 2 = Inr h' \<and>
          mat_at (h' 3) 0 0 = 5 \<and> mat_at (h' 3) 1 1 = 4 \<and> h' 0 = ?src"
    using d q by blast
  then show ?thesis using h l n by (intro conjI)
qed

text \<open>
  The call with \<open>dst\<close> the object \<open>src\<close> itself, under a mask that is active everywhere: the
  first \<open>addWeighted\<close> overwrites the source with the tapered image, and the final \<open>copyTo\<close>
  copies that image onto itself.  The zero pixel of the source \<open>[5, 0, 9]\<close> comes out as 5
  and the pixel 9 as 5.
\<close>

theorem edgeTaper_restores_mask_counterexample:
  "edgeTaper_dst \<lparr>addWeighted = (\<lambda>a al b be ga. a), GaussianBlur = (\<lambda>a k. a)\<rparr>
     (no_images(0 := [[5, 0, 9]], 1 := [[1, 1, 1]], 2 := [[9, 9, 9]])) 0 0 1 2 = Inr [[5, 5, 5]]"
  by code_simp

text \<open>
  The same call with an output image of its own, at the address 3, gives back the source.
\<close>

lemma edgeTaper_separate_dst:
  "edgeTaper_dst \<lparr>addWeighted = (\<lambda>a al b be ga. a), GaussianBlur = (\<lambda>a k. a)\<rparr>
     (no_images(0 := [[5, 0, 9]], 1 := [[1, 1, 1]], 2 := [[9, 9, 9]])) 0 3 1 2 = Inr [[5, 0, 9]]"
  by code_simp

text \<open>
  The call with \<open>dst\<close> the object \<open>mask\<close>: the first \<open>addWeighted\<close> overwrites the mask, so the
  final \<open>copyTo\<close> restores the source where the blurred image, not the mask the caller
  passed, is not zero.  With a blend that returns a black image nothing is restored.
\<close>

lemma edgeTaper_mask_alias:
  "edgeTaper_dst \<lparr>addWeighted = (\<lambda>a al b be ga. map (map (\<lambda>v. 0)) a), GaussianBlur = (\<lambda>a k. a)\<rparr>
     (no_images(0 := [[5, 3]], 1 := [[1, 1]], 2 := [[9, 9]])) 0 1 1 2 = Inr [[0, 0]]"
  by code_simp

end
